theory Spec2Isabelle
  imports Main "HOL-Library.Sublist" "HOL-Library.Monad_Syntax"
begin

section \<open>Strings of the host language\<close>

text \<open>
  The extension is TypeScript. A string there is a sequence of UTF-16 code units, and
  \<^verbatim>\<open>length\<close>, \<^verbatim>\<open>indexOf\<close>, \<^verbatim>\<open>split\<close> and the regular expressions (none has
  the \<^verbatim>\<open>u\<close> flag) all work on code units. A code unit is modelled by its number; \<open>js\<close>
  turns a literal into the code units of its characters.
\<close>

type_synonym code_unit = nat

type_synonym jstring = "code_unit list"

definition js :: "string \<Rightarrow> jstring" where
  "js s = map of_char s"

text \<open>The character classes of the regular expressions: \<^verbatim>\<open>\d\<close> is \<^verbatim>\<open>[0-9]\<close> and
  \<^verbatim>\<open>\w\<close> is \<^verbatim>\<open>[A-Za-z0-9_]\<close>.\<close>

definition is_digit :: "code_unit \<Rightarrow> bool" where
  "is_digit c \<longleftrightarrow> 48 \<le> c \<and> c \<le> 57"

definition is_upper :: "code_unit \<Rightarrow> bool" where
  "is_upper c \<longleftrightarrow> 65 \<le> c \<and> c \<le> 90"

definition is_lower :: "code_unit \<Rightarrow> bool" where
  "is_lower c \<longleftrightarrow> 97 \<le> c \<and> c \<le> 122"

definition is_word :: "code_unit \<Rightarrow> bool" where
  "is_word c \<longleftrightarrow> is_lower c \<or> is_upper c \<or> is_digit c \<or> c = 95"

text \<open>
  \<^verbatim>\<open>\s\<close> and \<^verbatim>\<open>String.prototype.trim\<close> use the same set, ECMAScript's WhiteSpace and
  LineTerminator: TAB, LF, VT, FF, CR, SPACE, NBSP (U+00A0), U+1680, U+2000 to U+200A,
  U+2028, U+2029, U+202F, U+205F, U+3000 and U+FEFF.
\<close>

definition is_space :: "code_unit \<Rightarrow> bool" where
  "is_space c \<longleftrightarrow>
     (9 \<le> c \<and> c \<le> 13) \<or> c = 32 \<or> c = 160 \<or> c = 5760 \<or> (8192 \<le> c \<and> c \<le> 8202) \<or>
     c = 8232 \<or> c = 8233 \<or> c = 8239 \<or> c = 8287 \<or> c = 12288 \<or> c = 65279"

text \<open>The dot of a regular expression without the \<^verbatim>\<open>s\<close> flag matches every code unit
  but the line terminators LF, CR, U+2028 and U+2029.\<close>

definition is_line_terminator :: "code_unit \<Rightarrow> bool" where
  "is_line_terminator c \<longleftrightarrow> c = 10 \<or> c = 13 \<or> c = 8232 \<or> c = 8233"

text \<open>\<^verbatim>\<open>s.trim()\<close>\<close>

definition trim :: "jstring \<Rightarrow> jstring" where
  "trim s = rev (dropWhile is_space (rev (dropWhile is_space s)))"

text \<open>\<^verbatim>\<open>s.split("\n")\<close>: the pieces between the line feeds; the empty string gives one
  empty piece.\<close>

fun split_nl :: "jstring \<Rightarrow> jstring list" where
  "split_nl [] = [[]]"
| "split_nl (c # cs) =
     (if c = 10 then [] # split_nl cs
      else (c # hd (split_nl cs)) # tl (split_nl cs))"

text \<open>
  \<^verbatim>\<open>parseInt(ds, 10)\<close> on a string of decimal digits (it is only applied to what
  \<^verbatim>\<open>\d+\<close> captured; on such a string \<^verbatim>\<open>parseInt(ds)\<close> without a radix is the same).
  The result is the number the digits denote. TypeScript numbers are IEEE doubles, which
  hold every integer up to \<open>2 ^ 53\<close> exactly; the model computes with integers and agrees
  with the program on numbers in that range.
\<close>

definition parseInt :: "jstring \<Rightarrow> int" where
  "parseInt ds = foldl (\<lambda>n c. 10 * n + (int c - 48)) 0 ds"

definition MAX_SAFE_INTEGER :: int where
  "MAX_SAFE_INTEGER = 2 ^ 53 - 1"

section \<open>Positions and ranges of the editor\<close>

text \<open>
  \<^verbatim>\<open>vscode.Position\<close> and \<^verbatim>\<open>vscode.Range\<close> belong to the editor, not to the extension.
  What the extension relies on: \<^verbatim>\<open>new Position(line, character)\<close> throws when an
  argument is negative (\<open>None\<close> here), and \<^verbatim>\<open>new Range(a, b)\<close> orders its two positions,
  keeping \<open>a\<close> as the start only when it is before \<open>b\<close>.
\<close>

record position =
  line :: int
  character :: int

definition Position :: "int \<Rightarrow> int \<Rightarrow> position option" where
  "Position l c = (if l < 0 \<or> c < 0 then None else Some \<lparr>line = l, character = c\<rparr>)"

definition isBefore :: "position \<Rightarrow> position \<Rightarrow> bool" where
  "isBefore a b \<longleftrightarrow> line a < line b \<or> (line a = line b \<and> character a < character b)"

record vrange =
  start :: position
  endp :: position

definition Range :: "position \<Rightarrow> position \<Rightarrow> vrange" where
  "Range a b = (if isBefore a b then \<lparr>start = a, endp = b\<rparr> else \<lparr>start = b, endp = a\<rparr>)"

section \<open>Diagnostics from the interpreter's error output\<close>

datatype DiagnosticSeverity = Error | Warning | Information | Hint

text \<open>A \<^verbatim>\<open>vscode.Diagnostic\<close>: its range, message and severity.\<close>

record diagnostic =
  drange :: vrange
  message :: jstring
  severity :: DiagnosticSeverity

text \<open>
  \<^verbatim>\<open>errLine.match(/\[(\d+):(\d+)\]\s*(.*)/)\<close>. \<open>bracket_at s\<close> is the match that starts at
  the head of \<open>s\<close>, giving the three groups. Each greedy quantifier is followed by something
  its own class excludes (\<^verbatim>\<open>\d+\<close> by a colon or a bracket) or by something that matches
  anything left (\<^verbatim>\<open>\s*\<close> by \<^verbatim>\<open>(.*)\<close>), so the longest run is the only one that can
  match and no backtracking is needed. The expression is not anchored: \<open>bracket_match\<close>
  tries every start from left to right and keeps the first match.
\<close>

definition bracket_at :: "jstring \<Rightarrow> (jstring \<times> jstring \<times> jstring) option" where
  "bracket_at s =
     (case s of
        [] \<Rightarrow> None
      | c # r \<Rightarrow>
          if c \<noteq> 91 \<or> takeWhile is_digit r = [] then None
          else (case dropWhile is_digit r of
                  [] \<Rightarrow> None
                | c1 # r1 \<Rightarrow>
                    if c1 \<noteq> 58 \<or> takeWhile is_digit r1 = [] then None
                    else (case dropWhile is_digit r1 of
                            [] \<Rightarrow> None
                          | c2 # r2 \<Rightarrow>
                              if c2 \<noteq> 93 then None
                              else Some (takeWhile is_digit r, takeWhile is_digit r1,
                                takeWhile (\<lambda>x. \<not> is_line_terminator x)
                                  (dropWhile is_space r2)))))"

fun bracket_match :: "jstring \<Rightarrow> (jstring \<times> jstring \<times> jstring) option" where
  "bracket_match [] = None"
| "bracket_match (c # cs) =
     (case bracket_at (c # cs) of
        Some m \<Rightarrow> Some m
      | None \<Rightarrow> bracket_match cs)"

text \<open>
  \<^verbatim>\<open>errLine.match(/line\s+(\d+)/i)\<close>. With the \<^verbatim>\<open>i\<close> flag and no \<^verbatim>\<open>u\<close> flag a code
  unit matches a letter of the pattern when their upper-case forms agree, and a code unit
  from 128 on is never taken for an ASCII one: only the letter itself and its capital
  match. The result is the group, the digits.
\<close>

definition same_letter :: "code_unit \<Rightarrow> code_unit \<Rightarrow> bool" where
  "same_letter c p \<longleftrightarrow> c = p \<or> (is_upper c \<and> c + 32 = p)"

definition line_at :: "jstring \<Rightarrow> jstring option" where
  "line_at s =
     (if length s < 4 \<or> \<not> list_all2 same_letter (take 4 s) (js ''line'') then None
      else (case drop 4 s of
              [] \<Rightarrow> None
            | c # r \<Rightarrow>
                if \<not> is_space c \<or> takeWhile is_digit (dropWhile is_space r) = [] then None
                else Some (takeWhile is_digit (dropWhile is_space r))))"

fun line_match :: "jstring \<Rightarrow> jstring option" where
  "line_match [] = None"
| "line_match (c # cs) =
     (case line_at (c # cs) of
        Some d \<Rightarrow> Some d
      | None \<Rightarrow> line_match cs)"

text \<open>
  \<^verbatim>\<open>new vscode.Diagnostic(range, message, severity)\<close>. This constructor of the editor
  throws a TypeError when the message is empty (\<open>None\<close> here).
\<close>

definition new_Diagnostic :: "vrange \<Rightarrow> jstring \<Rightarrow> DiagnosticSeverity \<Rightarrow> diagnostic option" where
  "new_Diagnostic rng msg sev =
     (if msg = [] then None else Some \<lparr>drange = rng, message = msg, severity = sev\<rparr>)"

text \<open>
  The body of the loop over the lines of \<^verbatim>\<open>stderr\<close> in \<^verbatim>\<open>runDiagnostics\<close>, for a line
  that is not blank: the diagnostic that is pushed, or \<open>None\<close> when a constructor throws.
\<close>

definition diagnostic_of :: "jstring \<Rightarrow> diagnostic option" where
  "diagnostic_of errLine =
     (let (ln, col, msg) =
        (case bracket_match errLine of
           Some (g1, g2, g3) \<Rightarrow> (max 0 (parseInt g1 - 1), max 0 (parseInt g2 - 1), g3)
         | None \<Rightarrow>
             (case line_match errLine of
                Some g \<Rightarrow> (max 0 (parseInt g - 1), 0, trim errLine)
              | None \<Rightarrow> (0, 0, trim errLine)))
      in do {
        startPos \<leftarrow> Position ln col;
        endPos \<leftarrow> Position ln MAX_SAFE_INTEGER;
        new_Diagnostic (Range startPos endPos) msg Error
      })"

text \<open>The loop itself: blank lines are skipped (\<^verbatim>\<open>continue\<close>), every other line pushes
  one diagnostic onto the end of the array. An exception ends the loop and the callback.\<close>

fun parse_lines :: "diagnostic list \<Rightarrow> jstring list \<Rightarrow> diagnostic list option" where
  "parse_lines diagnostics [] = Some diagnostics"
| "parse_lines diagnostics (errLine # errorLines) =
     (if trim errLine = [] then parse_lines diagnostics errorLines
      else (case diagnostic_of errLine of
              None \<Rightarrow> None
            | Some d \<Rightarrow> parse_lines (diagnostics @ [d]) errorLines))"

text \<open>
  The callback of \<^verbatim>\<open>execFile\<close> in \<^verbatim>\<open>runDiagnostics\<close>: \<open>error\<close> tells whether the
  interpreter failed, \<open>stderr\<close> is its error output; the result is the list handed to
  \<^verbatim>\<open>diagnosticCollection.set\<close>, or \<open>None\<close> when the callback ends by an exception and
  nothing is handed over. The empty string is falsy.
\<close>

definition runDiagnostics_callback :: "bool \<Rightarrow> jstring \<Rightarrow> diagnostic list option" where
  "runDiagnostics_callback error stderr =
     (if error \<and> stderr \<noteq> [] then parse_lines [] (split_nl stderr) else Some [])"

text \<open>The specification's \<open>locate\<close>: the diagnostics for the error text of a failed run.\<close>

definition locate :: "jstring \<Rightarrow> diagnostic list option" where
  "locate errorText = runDiagnostics_callback True errorText"

text \<open>
  The fallback of the second variant of the extension (\<^verbatim>\<open>src/extension.ts\<close>, the handler
  of \<^verbatim>\<open>onDidSaveTextDocument\<close>) reads the bracketed form in the same way and knows no
  other form.
\<close>

definition onSave_diagnostic_of :: "jstring \<Rightarrow> diagnostic option" where
  "onSave_diagnostic_of ln_text =
     (let (ln, col, msg) =
        (case bracket_match ln_text of
           Some (g1, g2, g3) \<Rightarrow> (max 0 (parseInt g1 - 1), max 0 (parseInt g2 - 1), g3)
         | None \<Rightarrow> (0, 0, trim ln_text))
      in do {
        startPos \<leftarrow> Position ln col;
        endPos \<leftarrow> Position ln MAX_SAFE_INTEGER;
        new_Diagnostic (Range startPos endPos) msg Error
      })"

fun onSave_lines :: "diagnostic list \<Rightarrow> jstring list \<Rightarrow> diagnostic list option" where
  "onSave_lines diagnostics [] = Some diagnostics"
| "onSave_lines diagnostics (ln_text # rest) =
     (if trim ln_text = [] then onSave_lines diagnostics rest
      else (case onSave_diagnostic_of ln_text of
              None \<Rightarrow> None
            | Some d \<Rightarrow> onSave_lines (diagnostics @ [d]) rest))"

definition onSave_callback :: "bool \<Rightarrow> jstring \<Rightarrow> diagnostic list option" where
  "onSave_callback error stderr =
     (if error \<and> stderr \<noteq> [] then onSave_lines [] (split_nl stderr) else Some [])"

section \<open>The outline of a document\<close>

datatype SymbolKind = Function | Class | Struct | Enum | Constant

text \<open>
  The five patterns of \<^verbatim>\<open>provideDocumentSymbols\<close> have one shape,
  \<^verbatim>\<open>/^\s*KEYWORD\s+(FIRST\w*)/\<close>. \<open>keyword_ident kw first ln\<close> is the match of that
  expression on \<open>ln\<close>: the captured name and the text after it. The longest run is again
  the only candidate of each quantifier: white space goes on until the keyword, which
  begins with a letter, or until the name, which begins with a letter or an underscore,
  and after the name nothing more is asked for.
\<close>

definition keyword_ident ::
    "jstring \<Rightarrow> (code_unit \<Rightarrow> bool) \<Rightarrow> jstring \<Rightarrow> (jstring \<times> jstring) option" where
  "keyword_ident kw first ln =
     (let r = dropWhile is_space ln in
      if \<not> prefix kw r then None
      else (case drop (length kw) r of
              [] \<Rightarrow> None
            | c # r1 \<Rightarrow>
                if \<not> is_space c then None
                else (case dropWhile is_space r1 of
                        [] \<Rightarrow> None
                      | h # t \<Rightarrow>
                          if first h then Some (h # takeWhile is_word t, dropWhile is_word t)
                          else None)))"

text \<open>\<^verbatim>\<open>/^\s*def\s+([a-zA-Z_]\w*)/\<close>\<close>

definition def_regex :: "jstring \<Rightarrow> jstring option" where
  "def_regex ln =
     map_option fst (keyword_ident (js ''def'') (\<lambda>c. is_lower c \<or> is_upper c \<or> c = 95) ln)"

text \<open>\<^verbatim>\<open>/^\s*class\s+([A-Z]\w*)/\<close>, \<^verbatim>\<open>/^\s*struct\s+([A-Z]\w*)/\<close> and
  \<^verbatim>\<open>/^\s*enum\s+([A-Z]\w*)/\<close>\<close>

definition class_regex :: "jstring \<Rightarrow> jstring option" where
  "class_regex ln = map_option fst (keyword_ident (js ''class'') is_upper ln)"

definition struct_regex :: "jstring \<Rightarrow> jstring option" where
  "struct_regex ln = map_option fst (keyword_ident (js ''struct'') is_upper ln)"

definition enum_regex :: "jstring \<Rightarrow> jstring option" where
  "enum_regex ln = map_option fst (keyword_ident (js ''enum'') is_upper ln)"

text \<open>\<^verbatim>\<open>/^\s*const\s+([A-Z_]\w*)\s*=/\<close>: after the name, white space and an equals sign.
  A shorter name would be followed by a word character, which is neither.\<close>

definition const_regex :: "jstring \<Rightarrow> jstring option" where
  "const_regex ln =
     (case keyword_ident (js ''const'') (\<lambda>c. is_upper c \<or> c = 95) ln of
        None \<Rightarrow> None
      | Some (name, r) \<Rightarrow>
          (case dropWhile is_space r of
             [] \<Rightarrow> None
           | c # _ \<Rightarrow> if c = 61 then Some name else None))"

definition patterns :: "((jstring \<Rightarrow> jstring option) \<times> SymbolKind) list" where
  "patterns =
     [(def_regex, Function), (class_regex, Class), (struct_regex, Struct),
      (enum_regex, Enum), (const_regex, Constant)]"

text \<open>The inner loop over the patterns: the first one that matches is used
  (\<^verbatim>\<open>break\<close>).\<close>

fun first_match ::
    "((jstring \<Rightarrow> jstring option) \<times> SymbolKind) list \<Rightarrow> jstring \<Rightarrow> (jstring \<times> SymbolKind) option"
where
  "first_match [] ln = None"
| "first_match ((regex, k) # pats) ln =
     (case regex ln of
        Some nm \<Rightarrow> Some (nm, k)
      | None \<Rightarrow> first_match pats ln)"

text \<open>
  \<^verbatim>\<open>/^\s*(def|class|struct|enum|if|unless|until|while|for|case|try)\b/\<close> and
  \<^verbatim>\<open>/^\s*end\b/\<close>. \<open>starts_with_word kw s\<close> is \<^verbatim>\<open>/^\s*KW\b/.test(s)\<close> for a keyword
  made of letters: after the white space comes the keyword, and then the end of the
  string or a code unit that is not a word character. An alternative that fails at the
  word boundary leaves the others to be tried, so the alternation matches when one of
  the keywords does.
\<close>

definition starts_with_word :: "jstring \<Rightarrow> jstring \<Rightarrow> bool" where
  "starts_with_word kw s \<longleftrightarrow>
     (let r = dropWhile is_space s in
      prefix kw r \<and> (case drop (length kw) r of [] \<Rightarrow> True | c # _ \<Rightarrow> \<not> is_word c))"

definition block_keywords :: "jstring list" where
  "block_keywords =
     map js [''def'', ''class'', ''struct'', ''enum'', ''if'', ''unless'', ''until'',
             ''while'', ''for'', ''case'', ''try'']"

definition opens_block :: "jstring \<Rightarrow> bool" where
  "opens_block s \<longleftrightarrow> list_ex (\<lambda>kw. starts_with_word kw s) block_keywords"

definition closes_block :: "jstring \<Rightarrow> bool" where
  "closes_block s \<longleftrightarrow> starts_with_word (js ''end'') s"

text \<open>\<^verbatim>\<open>ln.indexOf(name)\<close>: the index of the first occurrence of \<open>name\<close> in \<open>ln\<close>, or
  \<open>- 1\<close>.\<close>

fun indexOf :: "jstring \<Rightarrow> jstring \<Rightarrow> int" where
  "indexOf [] nm = (if nm = [] then 0 else - 1)"
| "indexOf (c # cs) nm =
     (if prefix nm (c # cs) then 0
      else if indexOf cs nm < 0 then - 1
      else indexOf cs nm + 1)"

text \<open>
  A \<^verbatim>\<open>vscode.DocumentSymbol\<close> is an object, and the program keeps references to it: in
  \<^verbatim>\<open>symbols\<close> or in its parent's \<^verbatim>\<open>children\<close>, and in \<^verbatim>\<open>blockStack\<close> while its block is
  open. The objects live in a store, a list in which a new object is put at the end; a
  reference is the object's index. The detail of a symbol is always the empty string and
  is left out.
\<close>

record symbol =
  name :: jstring
  kind :: SymbolKind
  srange :: vrange
  selectionRange :: vrange
  children :: "nat list"

text \<open>
  \<^verbatim>\<open>new vscode.DocumentSymbol(name, "", kind, range, selectionRange)\<close> makes a symbol
  without children. This constructor of the editor throws as well: when the name is
  empty, and when the range does not contain the selection range
  (\<^verbatim>\<open>range.contains(selectionRange)\<close>: both ends of the one lie between the ends of the
  other).
\<close>

definition symbol_of :: "jstring \<Rightarrow> SymbolKind \<Rightarrow> vrange \<Rightarrow> vrange \<Rightarrow> symbol" where
  "symbol_of nm k rng sel =
     \<lparr>name = nm, kind = k, srange = rng, selectionRange = sel, children = []\<rparr>"

definition contains :: "vrange \<Rightarrow> vrange \<Rightarrow> bool" where
  "contains rng other \<longleftrightarrow>
     \<not> isBefore (start other) (start rng) \<and> \<not> isBefore (endp rng) (start other) \<and>
     \<not> isBefore (endp other) (start rng) \<and> \<not> isBefore (endp rng) (endp other)"

definition new_DocumentSymbol ::
    "jstring \<Rightarrow> SymbolKind \<Rightarrow> vrange \<Rightarrow> vrange \<Rightarrow> symbol option" where
  "new_DocumentSymbol nm k rng sel =
     (if nm = [] \<or> \<not> contains rng sel then None else Some (symbol_of nm k rng sel))"

text \<open>The variables of \<^verbatim>\<open>provideDocumentSymbols\<close>. The top of \<^verbatim>\<open>blockStack\<close> is its last
  element.\<close>

record scan_state =
  store :: "symbol list"
  symbols :: "nat list"
  blockStack :: "(nat \<times> int) list"
  depth :: int

definition init_state :: scan_state where
  "init_state = \<lparr>store = [], symbols = [], blockStack = [], depth = 0\<rparr>"

text \<open>The first part of the loop body: the symbol a line defines, if it defines one.\<close>

definition define_symbol :: "scan_state \<Rightarrow> nat \<Rightarrow> jstring \<Rightarrow> scan_state option" where
  "define_symbol st i ln =
     (case first_match patterns ln of
        None \<Rightarrow> Some st
      | Some (nm, k) \<Rightarrow>
          do {
            startPos \<leftarrow> Position (int i) (indexOf ln nm);
            endPos \<leftarrow> Position (int i) (int (length ln));
            let rng = Range startPos endPos;
            symbol \<leftarrow> new_DocumentSymbol nm k rng rng;
            let sym = length (store st);
            let st1 = st\<lparr>store := store st @ [symbol]\<rparr>;
            let st2 =
              (if blockStack st1 \<noteq> [] \<and> (k = Function \<or> k = Enum)
               then let parent = fst (last (blockStack st1)) in
                 st1\<lparr>store := (store st1)[parent := (store st1 ! parent)
                        \<lparr>children := children (store st1 ! parent) @ [sym]\<rparr>]\<rparr>
               else st1\<lparr>symbols := symbols st1 @ [sym]\<rparr>);
            Some (if k = Class \<or> k = Struct \<or> k = Enum \<or> k = Function
                  then st2\<lparr>blockStack := blockStack st2 @ [(sym, depth st2)]\<rparr>
                  else st2)
          })"

text \<open>The second part: a block-opening keyword at the start of the trimmed line.\<close>

definition track_open :: "scan_state \<Rightarrow> jstring \<Rightarrow> scan_state" where
  "track_open st trimmed = (if opens_block trimmed then st\<lparr>depth := depth st + 1\<rparr> else st)"

text \<open>The third part: \<^verbatim>\<open>end\<close> at the start of the trimmed line.\<close>

definition track_end :: "scan_state \<Rightarrow> nat \<Rightarrow> jstring \<Rightarrow> jstring \<Rightarrow> scan_state option" where
  "track_end st i ln trimmed =
     (if closes_block trimmed then
        (let st1 = st\<lparr>depth := depth st - 1\<rparr> in
         if blockStack st1 \<noteq> [] then
           (let top = last (blockStack st1) in
            if depth st1 \<le> snd top then
              do {
                endPos \<leftarrow> Position (int i) (int (length ln));
                let old = store st1 ! fst top;
                Some (st1\<lparr>store := (store st1)[fst top :=
                             old\<lparr>srange := Range (start (srange old)) endPos\<rparr>],
                          blockStack := butlast (blockStack st1)\<rparr>)
              }
            else Some st1)
         else Some st1)
      else Some st)"

definition scan_line :: "scan_state \<Rightarrow> nat \<Rightarrow> jstring \<Rightarrow> scan_state option" where
  "scan_line st i ln =
     do {
       st1 \<leftarrow> define_symbol st i ln;
       track_end (track_open st1 (trim ln)) i ln (trim ln)
     }"

text \<open>The loop over the lines, from line \<open>i\<close> on.\<close>

fun scan :: "scan_state \<Rightarrow> nat \<Rightarrow> jstring list \<Rightarrow> scan_state option" where
  "scan st i [] = Some st"
| "scan st i (ln # lns) =
     (case scan_line st i ln of
        None \<Rightarrow> None
      | Some st' \<Rightarrow> scan st' (Suc i) lns)"

text \<open>
  What the caller receives is the array \<^verbatim>\<open>symbols\<close> with the objects it reaches. As a
  value that is a forest. \<open>reify h a\<close> reads the tree of the object at \<open>a\<close> off the store.
  A child is always created after its parent, so its reference is the larger one
  (\<open>scan_ordered\<close> below); the function follows only such references, which makes it
  total.
\<close>

datatype DocumentSymbol =
  DocumentSymbol jstring SymbolKind vrange vrange "DocumentSymbol list"

function reify :: "symbol list \<Rightarrow> nat \<Rightarrow> DocumentSymbol" where
  "reify h a =
     DocumentSymbol (name (h ! a)) (kind (h ! a)) (srange (h ! a)) (selectionRange (h ! a))
       (map (reify h) (filter (\<lambda>c. a < c \<and> c < length h) (children (h ! a))))"
  by pat_completeness auto

termination
  by (relation "measure (\<lambda>(h, a). length h - a)") auto

definition provideDocumentSymbols :: "jstring \<Rightarrow> DocumentSymbol list option" where
  "provideDocumentSymbols text =
     map_option (\<lambda>st. map (reify (store st)) (symbols st)) (scan init_state 0 (split_nl text))"

text \<open>The specification's \<open>build\<close>.\<close>

definition build :: "jstring \<Rightarrow> DocumentSymbol list option" where
  "build text = provideDocumentSymbols text"

section \<open>Notions used in the results\<close>

text \<open>The lines of the error output for which the loop does not \<^verbatim>\<open>continue\<close>: those
  that are not blank, in their order.\<close>

definition error_lines :: "jstring \<Rightarrow> jstring list" where
  "error_lines stderr = filter (\<lambda>errLine. trim errLine \<noteq> []) (split_nl stderr)"

text \<open>The range a symbol has when it is created on line \<open>i\<close>: from the first occurrence
  of its name in the line to the end of the line.\<close>

definition own_range :: "nat \<Rightarrow> jstring \<Rightarrow> jstring \<Rightarrow> vrange" where
  "own_range i ln nm =
     \<lparr>start = \<lparr>line = int i, character = indexOf ln nm\<rparr>,
      endp = \<lparr>line = int i, character = int (length ln)\<rparr>\<rparr>"

text \<open>What a line does to \<^verbatim>\<open>depth\<close>: plus one when its trimmed text starts with a
  block-opening keyword, minus one when it starts with \<^verbatim>\<open>end\<close>.\<close>

definition depth_change :: "jstring \<Rightarrow> int" where
  "depth_change ln =
     (if opens_block (trim ln) then 1 else 0) - (if closes_block (trim ln) then 1 else 0)"

text \<open>
  The wording of claim C6, "a line that contains a block-opening keyword": one of the
  keywords stands somewhere in the line as a word of its own. \<open>spec_word_inside kw before s\<close>
  looks for \<open>kw\<close> in \<open>s\<close>, where \<open>before\<close> tells whether the code unit before \<open>s\<close> is a
  word character.
\<close>

fun spec_word_inside :: "jstring \<Rightarrow> bool \<Rightarrow> jstring \<Rightarrow> bool" where
  "spec_word_inside kw before [] = False"
| "spec_word_inside kw before (c # cs) =
     ((\<not> before \<and> prefix kw (c # cs) \<and>
       (case drop (length kw) (c # cs) of [] \<Rightarrow> True | x # _ \<Rightarrow> \<not> is_word x)) \<or>
      spec_word_inside kw (is_word c) cs)"

definition spec_contains_block_keyword :: "jstring \<Rightarrow> bool" where
  "spec_contains_block_keyword ln \<longleftrightarrow> list_ex (\<lambda>kw. spec_word_inside kw False ln) block_keywords"

text \<open>
  A state whose references are sound: every reference in \<^verbatim>\<open>symbols\<close>, in \<^verbatim>\<open>blockStack\<close>
  and in a symbol's \<^verbatim>\<open>children\<close> is the index of an object of the store, and a child was
  created after its parent.
\<close>

definition sound_state :: "scan_state \<Rightarrow> bool" where
  "sound_state st \<longleftrightarrow>
     list_all (\<lambda>a. a < length (store st)) (symbols st) \<and>
     list_all (\<lambda>f. fst f < length (store st)) (blockStack st) \<and>
     list_all (\<lambda>a. list_all (\<lambda>c. a < c \<and> c < length (store st)) (children (store st ! a)))
       [0..<length (store st)]"

section \<open>Facts about the string functions\<close>

lemmas char_defs =
  is_digit_def is_upper_def is_lower_def is_word_def is_space_def is_line_terminator_def

lemma dropWhile_all_iff: "(\<forall>c\<in>set (dropWhile P s). P c) \<longleftrightarrow> (\<forall>c\<in>set s. P c)"
proof
  assume a: "\<forall>c\<in>set (dropWhile P s). P c"
  have "dropWhile P s = []"
  proof (rule ccontr)
    assume n: "dropWhile P s \<noteq> []"
    then have "\<not> P (hd (dropWhile P s))" by (rule hd_dropWhile)
    moreover have "hd (dropWhile P s) \<in> set (dropWhile P s)" using n by simp
    ultimately show False using a by blast
  qed
  then show "\<forall>c\<in>set s. P c" by (simp add: dropWhile_eq_Nil_conv)
next
  assume "\<forall>c\<in>set s. P c"
  then show "\<forall>c\<in>set (dropWhile P s). P c" by (meson set_dropWhileD)
qed

text \<open>A line is blank, that is, \<^verbatim>\<open>!errLine.trim()\<close> holds, when it has white space
  only.\<close>

lemma trim_Nil_iff: "trim s = [] \<longleftrightarrow> (\<forall>c\<in>set s. is_space c)"
proof -
  have "trim s = [] \<longleftrightarrow> (\<forall>c\<in>set (dropWhile is_space s). is_space c)"
    unfolding trim_def rev_is_Nil_conv dropWhile_eq_Nil_conv set_rev ..
  then show ?thesis by (simp only: dropWhile_all_iff)
qed

lemma split_nl_not_Nil: "split_nl s \<noteq> []"
  by (induction s) auto

lemma split_nl_subset: "l \<in> set (split_nl s) \<Longrightarrow> set l \<subseteq> set s"
proof (induction s arbitrary: l)
  case Nil
  then show ?case by simp
next
  case (Cons c cs)
  obtain h t where ht: "split_nl cs = h # t"
    using split_nl_not_Nil [of cs] by (cases "split_nl cs") auto
  show ?case
  proof (cases "c = 10")
    case True
    with Cons show ?thesis by auto
  next
    case False
    with Cons.prems ht have "l = c # h \<or> l \<in> set t" by auto
    then show ?thesis
    proof
      assume "l = c # h"
      moreover have "set h \<subseteq> set cs" using Cons.IH [of h] ht by simp
      ultimately show ?thesis by auto
    next
      assume "l \<in> set t"
      then have "set l \<subseteq> set cs" using Cons.IH [of l] ht by simp
      then show ?thesis by auto
    qed
  qed
qed

text \<open>A text without a line feed is one line.\<close>

lemma split_nl_single: "10 \<notin> set s \<Longrightarrow> split_nl s = [s]"
  by (induction s) auto

lemma split_nl_line: "10 \<notin> set l \<Longrightarrow> split_nl (l @ 10 # rest) = l # split_nl rest"
  by (induction l) auto

section \<open>The diagnostics\<close>

lemma MAX_SAFE_INTEGER_pos: "0 < MAX_SAFE_INTEGER"
  by (simp add: MAX_SAFE_INTEGER_def)

lemma Range_to_eol:
  "c \<le> MAX_SAFE_INTEGER \<Longrightarrow>
   Range \<lparr>line = l, character = c\<rparr> \<lparr>line = l, character = MAX_SAFE_INTEGER\<rparr> =
     \<lparr>start = \<lparr>line = l, character = c\<rparr>, endp = \<lparr>line = l, character = MAX_SAFE_INTEGER\<rparr>\<rparr>"
  by (auto simp: Range_def isBefore_def)

lemma Range_start_nonneg:
  "0 \<le> l \<Longrightarrow> 0 \<le> c \<Longrightarrow>
   0 \<le> line (start (Range \<lparr>line = l, character = c\<rparr> \<lparr>line = l, character = MAX_SAFE_INTEGER\<rparr>))
   \<and> 0 \<le> character (start (Range \<lparr>line = l, character = c\<rparr>
                                     \<lparr>line = l, character = MAX_SAFE_INTEGER\<rparr>))"
  using MAX_SAFE_INTEGER_pos by (simp add: Range_def)

text \<open>The positions of a diagnostic never make their constructor throw: the numbers are
  at least 0.\<close>

lemma push_eq:
  "0 \<le> l \<Longrightarrow> 0 \<le> c \<Longrightarrow>
   do { startPos \<leftarrow> Position l c; endPos \<leftarrow> Position l MAX_SAFE_INTEGER;
        new_Diagnostic (Range startPos endPos) msg sev } =
   new_Diagnostic (Range \<lparr>line = l, character = c\<rparr> \<lparr>line = l, character = MAX_SAFE_INTEGER\<rparr>)
     msg sev"
  using MAX_SAFE_INTEGER_pos by (simp add: Position_def)

lemma diagnostic_of_eq:
  "diagnostic_of l =
     (case bracket_match l of
        Some (g1, g2, g3) \<Rightarrow>
          new_Diagnostic (Range \<lparr>line = max 0 (parseInt g1 - 1), character = max 0 (parseInt g2 - 1)\<rparr>
                                \<lparr>line = max 0 (parseInt g1 - 1), character = MAX_SAFE_INTEGER\<rparr>)
            g3 Error
      | None \<Rightarrow>
          (case line_match l of
             Some g \<Rightarrow>
               new_Diagnostic (Range \<lparr>line = max 0 (parseInt g - 1), character = 0\<rparr>
                                     \<lparr>line = max 0 (parseInt g - 1), character = MAX_SAFE_INTEGER\<rparr>)
                 (trim l) Error
           | None \<Rightarrow>
               new_Diagnostic (Range \<lparr>line = 0, character = 0\<rparr>
                                     \<lparr>line = 0, character = MAX_SAFE_INTEGER\<rparr>)
                 (trim l) Error))"
  by (simp add: diagnostic_of_def push_eq split: option.splits prod.splits)

lemma onSave_diagnostic_of_eq:
  "onSave_diagnostic_of l =
     (case bracket_match l of
        Some (g1, g2, g3) \<Rightarrow>
          new_Diagnostic (Range \<lparr>line = max 0 (parseInt g1 - 1), character = max 0 (parseInt g2 - 1)\<rparr>
                                \<lparr>line = max 0 (parseInt g1 - 1), character = MAX_SAFE_INTEGER\<rparr>)
            g3 Error
      | None \<Rightarrow>
          new_Diagnostic (Range \<lparr>line = 0, character = 0\<rparr> \<lparr>line = 0, character = MAX_SAFE_INTEGER\<rparr>)
            (trim l) Error)"
  by (simp add: onSave_diagnostic_of_def push_eq split: option.splits prod.splits)

text \<open>A line that is not blank and has no bracketed form always gets its diagnostic.\<close>

lemma diagnostic_of_unbracketed:
  "bracket_match l = None \<Longrightarrow> trim l \<noteq> [] \<Longrightarrow> \<exists>d. diagnostic_of l = Some d"
  by (simp add: diagnostic_of_eq new_Diagnostic_def split: option.splits)

lemma diagnostic_of_nonneg:
  assumes "diagnostic_of l = Some d"
  shows "0 \<le> line (start (drange d)) \<and> 0 \<le> character (start (drange d)) \<and> severity d = Error"
  using assms Range_start_nonneg
  by (auto simp: diagnostic_of_eq new_Diagnostic_def split: option.splits prod.splits if_splits)

lemma diagnostic_of_unlocated:
  assumes "bracket_match l = None" "line_match l = None" "diagnostic_of l = Some d"
  shows "start (drange d) = \<lparr>line = 0, character = 0\<rparr>"
  using assms MAX_SAFE_INTEGER_pos
  by (auto simp: diagnostic_of_eq new_Diagnostic_def Range_def isBefore_def split: if_splits)

text \<open>The loop gives a list exactly when every line that is not blank gets its
  diagnostic; the list then has these diagnostics, line by line.\<close>

lemma parse_lines_iff:
  "parse_lines acc ls = Some r \<longleftrightarrow>
     (\<exists>ds. r = acc @ ds \<and>
        list_all2 (\<lambda>l d. diagnostic_of l = Some d) (filter (\<lambda>l. trim l \<noteq> []) ls) ds)"
proof (induction ls arbitrary: acc)
  case Nil
  then show ?case by auto
next
  case (Cons l ls)
  show ?case
  proof (cases "trim l = []")
    case True
    then show ?thesis using Cons by simp
  next
    case False
    show ?thesis
    proof (cases "diagnostic_of l")
      case None
      then show ?thesis using False by (simp add: list_all2_Cons1)
    next
      case (Some d)
      then show ?thesis
        using False Cons [of "acc @ [d]"] by (auto simp: list_all2_Cons1)
    qed
  qed
qed

lemma locate_iff:
  "locate t = Some ds \<longleftrightarrow>
     list_all2 (\<lambda>l d. diagnostic_of l = Some d)
       (filter (\<lambda>l. \<not> (\<forall>c\<in>set l. is_space c)) (split_nl t)) ds"
proof (cases "t = []")
  case True
  then show ?thesis
    by (auto simp: locate_def runDiagnostics_callback_def)
next
  case False
  then show ?thesis
    by (simp add: locate_def runDiagnostics_callback_def parse_lines_iff trim_Nil_iff)
qed

lemma locate_blank:
  assumes "\<forall>c\<in>set t. is_space c"
  shows "locate t = Some []"
proof -
  have "\<forall>l\<in>set (split_nl t). \<forall>c\<in>set l. is_space c"
    using assms split_nl_subset by blast
  then have "filter (\<lambda>l. \<not> (\<forall>c\<in>set l. is_space c)) (split_nl t) = []"
    by (simp add: filter_empty_conv)
  then show ?thesis by (simp add: locate_iff)
qed

text \<open>
  Claim C4 does not hold of the program for every text. What can be said: the result of
  \<open>locate\<close> is given by \<open>locate_iff\<close> and \<open>locate_blank\<close> above, one diagnostic for each
  line that is not blank, in the order of the lines, and the empty list for a text of white
  space only. But on a line that has the bracketed form with nothing after it the
  message is the empty string, the constructor of the diagnostic throws, and no list is
  produced at all. The line \<^verbatim>\<open>[1:1]\<close> is not blank and \<open>locate\<close> fails on it, in both
  variants of the extension.
\<close>

theorem locate_fails_on_empty_message:
  "trim (js ''[1:1]'') \<noteq> [] \<and>
   bracket_match (js ''[1:1]'') = Some (js ''1'', js ''1'', []) \<and>
   locate (js ''[1:1]'') = None \<and>
   onSave_callback True (js ''[1:1]'') = None"
proof -
  have m: "bracket_match (js ''[1:1]'') = Some (js ''1'', js ''1'', [])"
    by (simp add: js_def bracket_at_def char_defs)
  have t: "trim (js ''[1:1]'') \<noteq> []"
    by (simp add: js_def trim_def is_space_def)
  have s: "split_nl (js ''[1:1]'') = [js ''[1:1]'']"
    by (simp add: js_def)
  have "diagnostic_of (js ''[1:1]'') = None" "onSave_diagnostic_of (js ''[1:1]'') = None"
    by (simp_all add: diagnostic_of_eq onSave_diagnostic_of_eq m new_Diagnostic_def)
  then have "locate (js ''[1:1]'') = None" "onSave_callback True (js ''[1:1]'') = None"
    using t by (simp_all add: locate_def runDiagnostics_callback_def onSave_callback_def s)
      (simp_all add: js_def)
  then show ?thesis using m t by simp
qed

lemma trim_not_Nil: "c \<in> set ln \<Longrightarrow> \<not> is_space c \<Longrightarrow> trim ln \<noteq> []"
  by (auto simp: trim_Nil_iff)

lemma locate_single:
  assumes "10 \<notin> set ln" "trim ln \<noteq> []"
  shows "locate ln = map_option (\<lambda>d. [d]) (diagnostic_of ln)"
    "onSave_callback True ln = map_option (\<lambda>d. [d]) (onSave_diagnostic_of ln)"
  using assms
  by (auto simp: locate_def runDiagnostics_callback_def onSave_callback_def split_nl_single
      trim_def split: option.splits)

lemma error_lines_single: "10 \<notin> set l \<Longrightarrow> trim l \<noteq> [] \<Longrightarrow> error_lines l = [l]"
  by (simp add: error_lines_def split_nl_single)

lemma error_lines_line:
  "10 \<notin> set l \<Longrightarrow> trim l \<noteq> [] \<Longrightarrow> error_lines (l @ 10 # rest) = l # error_lines rest"
  by (simp add: error_lines_def split_nl_line)

lemma error_lines_Nil: "error_lines [] = []"
  by (simp add: error_lines_def trim_def)

lemma error_lines_subset: "set (error_lines t) \<subseteq> set (split_nl t)"
  by (auto simp: error_lines_def)

lemma locate_error_lines:
  "locate t = Some ds \<longleftrightarrow> list_all2 (\<lambda>l d. diagnostic_of l = Some d) (error_lines t) ds"
  by (simp add: locate_iff error_lines_def trim_Nil_iff)

lemma onSave_lines_iff:
  "onSave_lines acc ls = Some r \<longleftrightarrow>
     (\<exists>ds. r = acc @ ds \<and>
        list_all2 (\<lambda>l d. onSave_diagnostic_of l = Some d) (filter (\<lambda>l. trim l \<noteq> []) ls) ds)"
proof (induction ls arbitrary: acc)
  case Nil
  then show ?case by auto
next
  case (Cons l ls)
  show ?case
  proof (cases "trim l = []")
    case True
    then show ?thesis using Cons by simp
  next
    case False
    show ?thesis
    proof (cases "onSave_diagnostic_of l")
      case None
      then show ?thesis using False by (simp add: list_all2_Cons1)
    next
      case (Some d)
      then show ?thesis
        using False Cons [of "acc @ [d]"] by (auto simp: list_all2_Cons1)
    qed
  qed
qed

lemma onSave_error_lines:
  "onSave_callback True t = Some ds \<longleftrightarrow>
     list_all2 (\<lambda>l d. onSave_diagnostic_of l = Some d) (error_lines t) ds"
proof (cases "t = []")
  case True
  then show ?thesis
    by (auto simp: onSave_callback_def error_lines_Nil)
next
  case False
  then show ?thesis
    by (simp add: onSave_callback_def onSave_lines_iff error_lines_def)
qed

lemma list_all2_Some_ex:
  "(\<exists>ds. list_all2 (\<lambda>l d. f l = Some d) ls ds) \<longleftrightarrow> (\<forall>l\<in>set ls. f l \<noteq> None)"
proof (induction ls)
  case Nil
  then show ?case by simp
next
  case (Cons l ls)
  then show ?case by (auto simp: list_all2_Cons1)
qed

lemma bracket_at_head: "bracket_at s = Some m \<Longrightarrow> hd s = 91 \<and> s \<noteq> []"
  by (cases s) (auto simp: bracket_at_def split: if_splits)

lemma bracket_match_mem: "bracket_match s = Some m \<Longrightarrow> 91 \<in> set s"
proof (induction s)
  case Nil
  then show ?case by simp
next
  case (Cons c cs)
  show ?case
  proof (cases "bracket_at (c # cs)")
    case None
    with Cons show ?thesis by simp
  next
    case (Some a)
    from bracket_at_head [OF this] show ?thesis by simp
  qed
qed

lemma bracket_match_nonblank: "bracket_match s = Some m \<Longrightarrow> trim s \<noteq> []"
  by (rule trim_not_Nil [of 91]) (simp_all add: bracket_match_mem is_space_def)

text \<open>The one way in which a line that is not blank gets no diagnostic: the bracketed
  form is found in it and the message after it is empty.\<close>

lemma diagnostic_of_None_iff:
  assumes "trim l \<noteq> []"
  shows "diagnostic_of l = None \<longleftrightarrow> (\<exists>g1 g2. bracket_match l = Some (g1, g2, []))"
  using assms
  by (auto simp: diagnostic_of_eq new_Diagnostic_def split: option.splits)

lemma onSave_diagnostic_of_None_iff:
  assumes "trim l \<noteq> []"
  shows "onSave_diagnostic_of l = None \<longleftrightarrow> (\<exists>g1 g2. bracket_match l = Some (g1, g2, []))"
  using assms
  by (auto simp: onSave_diagnostic_of_eq new_Diagnostic_def split: option.splits)

lemma empty_message_line:
  "(\<exists>l\<in>set (error_lines t). \<exists>g1 g2. bracket_match l = Some (g1, g2, [])) \<longleftrightarrow>
   (\<exists>l\<in>set (split_nl t). \<exists>g1 g2. bracket_match l = Some (g1, g2, []))"
  using bracket_match_nonblank by (auto simp: error_lines_def)

lemma locate_None_iff:
  "locate t = None \<longleftrightarrow> (\<exists>l\<in>set (split_nl t). \<exists>g1 g2. bracket_match l = Some (g1, g2, []))"
proof -
  have "locate t = None \<longleftrightarrow> \<not> (\<exists>ds. locate t = Some ds)" by auto
  also have "\<dots> \<longleftrightarrow> (\<exists>l\<in>set (error_lines t). diagnostic_of l = None)"
    by (simp add: locate_error_lines list_all2_Some_ex)
  also have "\<dots> \<longleftrightarrow> (\<exists>l\<in>set (error_lines t). \<exists>g1 g2. bracket_match l = Some (g1, g2, []))"
    using diagnostic_of_None_iff by (auto simp: error_lines_def)
  finally show ?thesis by (simp only: empty_message_line)
qed

lemma onSave_None_iff:
  "onSave_callback True t = None \<longleftrightarrow>
     (\<exists>l\<in>set (split_nl t). \<exists>g1 g2. bracket_match l = Some (g1, g2, []))"
proof -
  have "onSave_callback True t = None \<longleftrightarrow> \<not> (\<exists>ds. onSave_callback True t = Some ds)" by auto
  also have "\<dots> \<longleftrightarrow> (\<exists>l\<in>set (error_lines t). onSave_diagnostic_of l = None)"
    by (simp add: onSave_error_lines list_all2_Some_ex)
  also have "\<dots> \<longleftrightarrow> (\<exists>l\<in>set (error_lines t). \<exists>g1 g2. bracket_match l = Some (g1, g2, []))"
    using onSave_diagnostic_of_None_iff by (auto simp: error_lines_def)
  finally show ?thesis by (simp only: empty_message_line)
qed

text \<open>When a list is produced, its \<open>i\<close>-th diagnostic is the one of the \<open>i\<close>-th line that
  is not blank.\<close>

lemma locate_nth:
  assumes "locate t = Some ds"
  shows "length ds = length (error_lines t)"
    and "i < length (error_lines t) \<Longrightarrow> diagnostic_of (error_lines t ! i) = Some (ds ! i)"
  using assms by (simp_all add: locate_error_lines list_all2_conv_all_nth)

lemma onSave_nth:
  assumes "onSave_callback True t = Some ds"
  shows "length ds = length (error_lines t)"
    and "i < length (error_lines t) \<Longrightarrow> onSave_diagnostic_of (error_lines t ! i) = Some (ds ! i)"
  using assms by (simp_all add: onSave_error_lines list_all2_conv_all_nth)

lemma nth_singleton: "length ds = 1 \<Longrightarrow> ds ! 0 = d \<Longrightarrow> ds = [d]"
  by (cases ds) auto

lemma diagnostic_of_start:
  assumes "diagnostic_of l = Some d"
  shows "bracket_match l = Some (g1, g2, g3) \<Longrightarrow> parseInt g2 \<le> 2 ^ 53 \<Longrightarrow>
           start (drange d) =
             \<lparr>line = max 0 (parseInt g1 - 1), character = max 0 (parseInt g2 - 1)\<rparr>"
    and "bracket_match l = None \<Longrightarrow> line_match l = Some g \<Longrightarrow>
           start (drange d) = \<lparr>line = max 0 (parseInt g - 1), character = 0\<rparr>"
proof -
  assume m: "bracket_match l = Some (g1, g2, g3)" and e: "parseInt g2 \<le> 2 ^ 53"
  have c: "max 0 (parseInt g2 - 1) \<le> MAX_SAFE_INTEGER"
    using e by (simp add: MAX_SAFE_INTEGER_def)
  show "start (drange d) =
      \<lparr>line = max 0 (parseInt g1 - 1), character = max 0 (parseInt g2 - 1)\<rparr>"
    using assms Range_to_eol [OF c]
    by (auto simp: diagnostic_of_eq m new_Diagnostic_def split: if_splits)
next
  assume m: "bracket_match l = None" "line_match l = Some g"
  have c: "(0::int) \<le> MAX_SAFE_INTEGER"
    using MAX_SAFE_INTEGER_pos by simp
  show "start (drange d) = \<lparr>line = max 0 (parseInt g - 1), character = 0\<rparr>"
    using assms Range_to_eol [OF c]
    by (auto simp: diagnostic_of_eq m new_Diagnostic_def split: if_splits)
qed

lemma boom:
  "locate (js ''boom'') =
     Some [\<lparr>drange = \<lparr>start = \<lparr>line = 0, character = 0\<rparr>,
                        endp = \<lparr>line = 0, character = MAX_SAFE_INTEGER\<rparr>\<rparr>,
             message = js ''boom'', severity = Error\<rparr>]"
  "bracket_match (js ''boom'') = None" "line_match (js ''boom'') = None"
  "filter (\<lambda>l. \<not> (\<forall>c\<in>set l. is_space c)) (split_nl (js ''boom'')) = [js ''boom'']"
proof -
  show b: "bracket_match (js ''boom'') = None"
    by (simp add: js_def bracket_at_def)
  show l: "line_match (js ''boom'') = None"
    by (simp add: js_def line_at_def same_letter_def is_upper_def)
  have t: "trim (js ''boom'') = js ''boom''"
    by (simp add: js_def trim_def is_space_def)
  have n: "10 \<notin> set (js ''boom'')" "js ''boom'' \<noteq> []" by (simp_all add: js_def)
  have "diagnostic_of (js ''boom'') =
      Some \<lparr>drange = \<lparr>start = \<lparr>line = 0, character = 0\<rparr>,
                        endp = \<lparr>line = 0, character = MAX_SAFE_INTEGER\<rparr>\<rparr>,
             message = js ''boom'', severity = Error\<rparr>"
    using n(2) MAX_SAFE_INTEGER_pos
    by (simp add: diagnostic_of_eq b l t new_Diagnostic_def Range_to_eol)
  then show "locate (js ''boom'') =
     Some [\<lparr>drange = \<lparr>start = \<lparr>line = 0, character = 0\<rparr>,
                        endp = \<lparr>line = 0, character = MAX_SAFE_INTEGER\<rparr>\<rparr>,
             message = js ''boom'', severity = Error\<rparr>]"
    using n t by (simp add: locate_single)
  show "filter (\<lambda>l. \<not> (\<forall>c\<in>set l. is_space c)) (split_nl (js ''boom'')) = [js ''boom'']"
    using n(1) by (simp add: split_nl_single) (simp add: js_def is_space_def)
qed

lemma diag_boom:
  "diagnostic_of (js ''boom'') =
     Some \<lparr>drange = \<lparr>start = \<lparr>line = 0, character = 0\<rparr>,
                      endp = \<lparr>line = 0, character = MAX_SAFE_INTEGER\<rparr>\<rparr>,
            message = js ''boom'', severity = Error\<rparr>"
  "trim (js ''boom'') \<noteq> []" "10 \<notin> set (js ''boom'')"
proof -
  have t: "trim (js ''boom'') = js ''boom''"
    by (simp add: js_def trim_def is_space_def)
  have n: "js ''boom'' \<noteq> []" by (simp add: js_def)
  show "diagnostic_of (js ''boom'') =
     Some \<lparr>drange = \<lparr>start = \<lparr>line = 0, character = 0\<rparr>,
                      endp = \<lparr>line = 0, character = MAX_SAFE_INTEGER\<rparr>\<rparr>,
            message = js ''boom'', severity = Error\<rparr>"
    using n MAX_SAFE_INTEGER_pos
    by (simp add: diagnostic_of_eq boom(2,3) t new_Diagnostic_def Range_to_eol)
  show "trim (js ''boom'') \<noteq> []" using n by (simp add: t)
  show "10 \<notin> set (js ''boom'')" by (simp add: js_def)
qed

lemma floor_parts:
  "bracket_match (js ''[0:1] a'') = Some (js ''0'', js ''1'', js ''a'')"
  "10 \<notin> set (js ''[0:1] a'')" "js ''a'' \<noteq> []"
  "parseInt (js ''0'') = 0" "parseInt (js ''1'') = 1"
  by (simp_all add: js_def bracket_at_def char_defs parseInt_def)

lemma floor_then_boom:
  "error_lines (js ''[0:1] a'' @ 10 # js ''boom'') = [js ''[0:1] a'', js ''boom'']"
  "split_nl (js ''[0:1] a'' @ 10 # js ''boom'') = [js ''[0:1] a'', js ''boom'']"
  using diag_boom(2,3) floor_parts(2) bracket_match_nonblank [OF floor_parts(1)]
  by (simp_all add: error_lines_line error_lines_single split_nl_line split_nl_single)

text \<open>
  Claim C5. The positions never make a constructor throw: the only texts for which
  \<open>locate\<close> produces no list are those of claim C4, with a line whose bracketed form has
  an empty message. When a list is produced it has one diagnostic for each line that is
  not blank, and its \<open>i\<close>-th diagnostic, which belongs to the \<open>i\<close>-th such line, starts at
  a line and a column that are at least 0 and has severity Error. Its start is, for a
  line in which the bracketed form is found, the first number minus 1 and the second
  number minus 1, each raised to 0 when it is negative (so \<^verbatim>\<open>[0:1] a\<close> is at line 0,
  column 0); for a line with the prose form, the number minus 1 raised to 0 in the same
  way, and column 0; and for a line with neither form, line 0 and column 0. The numbers
  are taken to be at most \<open>2 ^ 53\<close>.
\<close>

theorem locate_positions_nonnegative:
  "(locate errorText = None \<longleftrightarrow>
      (\<exists>l\<in>set (split_nl errorText). \<exists>g1 g2. bracket_match l = Some (g1, g2, [])))
   \<and> (\<forall>ds. locate errorText = Some ds \<longrightarrow>
        length ds = length (error_lines errorText) \<and>
        (\<forall>i < length ds.
           0 \<le> line (start (drange (ds ! i))) \<and> 0 \<le> character (start (drange (ds ! i))) \<and>
           severity (ds ! i) = Error \<and>
           (\<forall>g1 g2 g3. bracket_match (error_lines errorText ! i) = Some (g1, g2, g3) \<and>
                parseInt g1 \<le> 2 ^ 53 \<and> parseInt g2 \<le> 2 ^ 53 \<longrightarrow>
              start (drange (ds ! i)) =
                \<lparr>line = max 0 (parseInt g1 - 1), character = max 0 (parseInt g2 - 1)\<rparr>) \<and>
           (\<forall>g. bracket_match (error_lines errorText ! i) = None \<and>
                line_match (error_lines errorText ! i) = Some g \<and> parseInt g \<le> 2 ^ 53 \<longrightarrow>
              start (drange (ds ! i)) = \<lparr>line = max 0 (parseInt g - 1), character = 0\<rparr>) \<and>
           (bracket_match (error_lines errorText ! i) = None \<and>
                line_match (error_lines errorText ! i) = None \<longrightarrow>
              start (drange (ds ! i)) = \<lparr>line = 0, character = 0\<rparr>)))"
proof -
  have "length ds = length (error_lines errorText) \<and>
        (\<forall>i < length ds.
           0 \<le> line (start (drange (ds ! i))) \<and> 0 \<le> character (start (drange (ds ! i))) \<and>
           severity (ds ! i) = Error \<and>
           (\<forall>g1 g2 g3. bracket_match (error_lines errorText ! i) = Some (g1, g2, g3) \<and>
                parseInt g1 \<le> 2 ^ 53 \<and> parseInt g2 \<le> 2 ^ 53 \<longrightarrow>
              start (drange (ds ! i)) =
                \<lparr>line = max 0 (parseInt g1 - 1), character = max 0 (parseInt g2 - 1)\<rparr>) \<and>
           (\<forall>g. bracket_match (error_lines errorText ! i) = None \<and>
                line_match (error_lines errorText ! i) = Some g \<and> parseInt g \<le> 2 ^ 53 \<longrightarrow>
              start (drange (ds ! i)) = \<lparr>line = max 0 (parseInt g - 1), character = 0\<rparr>) \<and>
           (bracket_match (error_lines errorText ! i) = None \<and>
                line_match (error_lines errorText ! i) = None \<longrightarrow>
              start (drange (ds ! i)) = \<lparr>line = 0, character = 0\<rparr>))"
    if l: "locate errorText = Some ds" for ds
  proof -
    have len: "length ds = length (error_lines errorText)"
      using locate_nth(1) [OF l] .
    have nth: "diagnostic_of (error_lines errorText ! i) = Some (ds ! i)" if "i < length ds" for i
      using locate_nth(2) [OF l] that len by simp
    show ?thesis
    proof (intro conjI allI impI)
      show "length ds = length (error_lines errorText)" by (rule len)
    next
      fix i assume "i < length ds"
      from diagnostic_of_nonneg [OF nth [OF this]]
      show "0 \<le> line (start (drange (ds ! i)))" "0 \<le> character (start (drange (ds ! i)))"
        "severity (ds ! i) = Error" by simp_all
    next
      fix i g1 g2 g3
      assume "i < length ds"
        and "bracket_match (error_lines errorText ! i) = Some (g1, g2, g3) \<and>
          parseInt g1 \<le> 2 ^ 53 \<and> parseInt g2 \<le> 2 ^ 53"
      then show "start (drange (ds ! i)) =
          \<lparr>line = max 0 (parseInt g1 - 1), character = max 0 (parseInt g2 - 1)\<rparr>"
        using diagnostic_of_start(1) [OF nth] by blast
    next
      fix i g
      assume "i < length ds"
        and "bracket_match (error_lines errorText ! i) = None \<and>
          line_match (error_lines errorText ! i) = Some g \<and> parseInt g \<le> 2 ^ 53"
      then show "start (drange (ds ! i)) = \<lparr>line = max 0 (parseInt g - 1), character = 0\<rparr>"
        using diagnostic_of_start(2) [OF nth] by blast
    next
      fix i
      assume "i < length ds"
        and "bracket_match (error_lines errorText ! i) = None \<and>
          line_match (error_lines errorText ! i) = None"
      then show "start (drange (ds ! i)) = \<lparr>line = 0, character = 0\<rparr>"
        using diagnostic_of_unlocated nth by blast
    qed
  qed
  then show ?thesis using locate_None_iff [of errorText] by blast
qed

theorem locate_positions_nonnegative_witness:
  "\<exists>ds. locate (js ''[0:1] a'' @ 10 # js ''boom'') = Some ds \<and> length ds = 2 \<and>
      start (drange (ds ! 0)) = \<lparr>line = 0, character = 0\<rparr> \<and> severity (ds ! 0) = Error \<and>
      start (drange (ds ! 1)) = \<lparr>line = 0, character = 0\<rparr> \<and> severity (ds ! 1) = Error"
proof -
  let ?t = "js ''[0:1] a'' @ 10 # js ''boom''"
  note th = locate_positions_nonnegative [of ?t]
  have "locate ?t \<noteq> None"
    using th by (simp add: floor_then_boom floor_parts(1,3) boom(2))
  then obtain ds where l: "locate ?t = Some ds" by auto
  with th have len: "length ds = 2"
    by (simp add: floor_then_boom)
  note at = th [THEN conjunct2, rule_format, OF l, THEN conjunct2, rule_format]
  have "start (drange (ds ! 0)) = \<lparr>line = 0, character = 0\<rparr> \<and> severity (ds ! 0) = Error"
    using at [of 0] len by (simp add: floor_then_boom floor_parts)
  moreover
  have "start (drange (ds ! 1)) = \<lparr>line = 0, character = 0\<rparr> \<and> severity (ds ! 1) = Error"
    using at [of 1] len by (simp add: floor_then_boom boom(2,3))
  ultimately show ?thesis using l len by blast
qed

lemma digit_not_space: "is_digit c \<Longrightarrow> \<not> is_space c"
  by (auto simp: char_defs)

lemma takeWhile_run:
  "\<forall>c\<in>set xs. P c \<Longrightarrow> ys = [] \<or> \<not> P (hd ys) \<Longrightarrow> takeWhile P (xs @ ys) = xs"
  by (cases ys) (auto simp: takeWhile_append2)

lemma dropWhile_run:
  "\<forall>c\<in>set xs. P c \<Longrightarrow> ys = [] \<or> \<not> P (hd ys) \<Longrightarrow> dropWhile P (xs @ ys) = ys"
  by (cases ys) (auto simp: dropWhile_append2)

lemma bracket_at_shape:
  assumes "d1 \<noteq> []" "\<forall>c\<in>set d1. is_digit c" "d2 \<noteq> []" "\<forall>c\<in>set d2. is_digit c"
  shows "bracket_at (91 # d1 @ 58 # d2 @ 93 # rest) =
    Some (d1, d2, takeWhile (\<lambda>x. \<not> is_line_terminator x) (dropWhile is_space rest))"
proof -
  have n: "\<not> is_digit 58" "\<not> is_digit 93" by (simp_all add: is_digit_def)
  have t1: "takeWhile is_digit (d1 @ 58 # d2 @ 93 # rest) = d1"
    using assms n by (simp add: takeWhile_run)
  have r1: "dropWhile is_digit (d1 @ 58 # d2 @ 93 # rest) = 58 # d2 @ 93 # rest"
    using assms n by (simp add: dropWhile_run)
  have t2: "takeWhile is_digit (d2 @ 93 # rest) = d2"
    using assms n by (simp add: takeWhile_run)
  have r2: "dropWhile is_digit (d2 @ 93 # rest) = 93 # rest"
    using assms n by (simp add: dropWhile_run)
  show ?thesis
    using assms by (simp add: bracket_at_def t1 r1 t2 r2)
qed

lemma bracketed_diag:
  assumes d1: "d1 \<noteq> []" "\<forall>c\<in>set d1. is_digit c"
      and d2: "d2 \<noteq> []" "\<forall>c\<in>set d2. is_digit c"
      and msg: "takeWhile (\<lambda>c. \<not> is_line_terminator c) (dropWhile is_space rest) \<noteq> []"
      and exact: "parseInt d1 \<le> 2 ^ 53" "parseInt d2 \<le> 2 ^ 53"
  shows "diagnostic_of (js ''['' @ d1 @ js '':'' @ d2 @ js '']'' @ rest) =
           Some \<lparr>drange = \<lparr>start = \<lparr>line = max 0 (parseInt d1 - 1),
                                     character = max 0 (parseInt d2 - 1)\<rparr>,
                            endp = \<lparr>line = max 0 (parseInt d1 - 1),
                                    character = MAX_SAFE_INTEGER\<rparr>\<rparr>,
                 message = takeWhile (\<lambda>c. \<not> is_line_terminator c) (dropWhile is_space rest),
                 severity = Error\<rparr>"
    and "onSave_diagnostic_of (js ''['' @ d1 @ js '':'' @ d2 @ js '']'' @ rest) =
           diagnostic_of (js ''['' @ d1 @ js '':'' @ d2 @ js '']'' @ rest)"
proof -
  let ?ln = "js ''['' @ d1 @ js '':'' @ d2 @ js '']'' @ rest"
  have ln: "?ln = 91 # d1 @ 58 # d2 @ 93 # rest"
    by (simp add: js_def)
  have m: "bracket_match ?ln =
      Some (d1, d2, takeWhile (\<lambda>x. \<not> is_line_terminator x) (dropWhile is_space rest))"
    unfolding ln using bracket_at_shape [OF d1 d2] by simp
  have c: "max 0 (parseInt d2 - 1) \<le> MAX_SAFE_INTEGER"
    using exact by (simp add: MAX_SAFE_INTEGER_def)
  show "diagnostic_of ?ln =
           Some \<lparr>drange = \<lparr>start = \<lparr>line = max 0 (parseInt d1 - 1),
                                     character = max 0 (parseInt d2 - 1)\<rparr>,
                            endp = \<lparr>line = max 0 (parseInt d1 - 1),
                                    character = MAX_SAFE_INTEGER\<rparr>\<rparr>,
                 message = takeWhile (\<lambda>c. \<not> is_line_terminator c) (dropWhile is_space rest),
                 severity = Error\<rparr>"
    using c msg by (simp add: diagnostic_of_eq m Range_to_eol new_Diagnostic_def)
  show "onSave_diagnostic_of ?ln = diagnostic_of ?ln"
    by (simp add: diagnostic_of_eq onSave_diagnostic_of_eq m)
qed

lemma bracketed_line:
  assumes d1: "d1 \<noteq> []" "\<forall>c\<in>set d1. is_digit c"
      and d2: "d2 \<noteq> []" "\<forall>c\<in>set d2. is_digit c"
      and rest: "10 \<notin> set rest"
      and msg: "takeWhile (\<lambda>c. \<not> is_line_terminator c) (dropWhile is_space rest) \<noteq> []"
      and exact: "parseInt d1 \<le> 2 ^ 53" "parseInt d2 \<le> 2 ^ 53"
  shows "locate (js ''['' @ d1 @ js '':'' @ d2 @ js '']'' @ rest) =
           Some [\<lparr>drange = \<lparr>start = \<lparr>line = max 0 (parseInt d1 - 1),
                                      character = max 0 (parseInt d2 - 1)\<rparr>,
                             endp = \<lparr>line = max 0 (parseInt d1 - 1),
                                     character = MAX_SAFE_INTEGER\<rparr>\<rparr>,
                  message = takeWhile (\<lambda>c. \<not> is_line_terminator c) (dropWhile is_space rest),
                  severity = Error\<rparr>]
     \<and> onSave_callback True (js ''['' @ d1 @ js '':'' @ d2 @ js '']'' @ rest) =
           locate (js ''['' @ d1 @ js '':'' @ d2 @ js '']'' @ rest)"
proof -
  let ?ln = "js ''['' @ d1 @ js '':'' @ d2 @ js '']'' @ rest"
  have ln: "?ln = 91 # d1 @ 58 # d2 @ 93 # rest"
    by (simp add: js_def)
  have nd: "\<not> is_digit 10" by (simp add: is_digit_def)
  have "10 \<notin> set ?ln"
    using d1 d2 rest nd unfolding ln by auto
  moreover have "trim ?ln \<noteq> []"
    unfolding ln by (rule trim_not_Nil [of 91]) (simp_all add: is_space_def)
  ultimately have one: "locate ?ln = map_option (\<lambda>d. [d]) (diagnostic_of ?ln)"
      "onSave_callback True ?ln = map_option (\<lambda>d. [d]) (onSave_diagnostic_of ?ln)"
    by (rule locate_single)+
  have m: "bracket_match ?ln =
      Some (d1, d2, takeWhile (\<lambda>x. \<not> is_line_terminator x) (dropWhile is_space rest))"
    unfolding ln using bracket_at_shape [OF d1 d2] by simp
  have c: "max 0 (parseInt d2 - 1) \<le> MAX_SAFE_INTEGER"
    using exact by (simp add: MAX_SAFE_INTEGER_def)
  show ?thesis
    unfolding one using c msg
    by (simp add: diagnostic_of_eq onSave_diagnostic_of_eq m Range_to_eol new_Diagnostic_def)
qed

lemma token_parts:
  "js ''3'' \<noteq> []" "\<forall>c\<in>set (js ''3''). is_digit c"
  "js ''5'' \<noteq> []" "\<forall>c\<in>set (js ''5''). is_digit c"
  "takeWhile (\<lambda>c. \<not> is_line_terminator c) (dropWhile is_space (js '' unexpected token'')) \<noteq> []"
  "parseInt (js ''3'') \<le> 2 ^ 53" "parseInt (js ''5'') \<le> 2 ^ 53"
  "takeWhile (\<lambda>c. \<not> is_line_terminator c) (dropWhile is_space (js '' unexpected token'')) =
     js ''unexpected token''"
  "parseInt (js ''3'') = 3" "parseInt (js ''5'') = 5" "js ''unexpected token'' \<noteq> []"
  by (simp_all add: js_def parseInt_def char_defs)

lemma unexpected_token:
  "bracket_match (js ''[3:5] unexpected token'') = Some (js ''3'', js ''5'', js ''unexpected token'')"
  "trim (js ''[3:5] unexpected token'') \<noteq> []" "10 \<notin> set (js ''[3:5] unexpected token'')"
  "diagnostic_of (js ''[3:5] unexpected token'') =
     Some \<lparr>drange = \<lparr>start = \<lparr>line = 2, character = 4\<rparr>,
                      endp = \<lparr>line = 2, character = MAX_SAFE_INTEGER\<rparr>\<rparr>,
            message = js ''unexpected token'', severity = Error\<rparr>"
proof -
  show m: "bracket_match (js ''[3:5] unexpected token'') =
      Some (js ''3'', js ''5'', js ''unexpected token'')"
    by (simp add: js_def bracket_at_def char_defs)
  then show "trim (js ''[3:5] unexpected token'') \<noteq> []"
    by (rule bracket_match_nonblank)
  show "10 \<notin> set (js ''[3:5] unexpected token'')" by (simp add: js_def)
  show "diagnostic_of (js ''[3:5] unexpected token'') =
     Some \<lparr>drange = \<lparr>start = \<lparr>line = 2, character = 4\<rparr>,
                      endp = \<lparr>line = 2, character = MAX_SAFE_INTEGER\<rparr>\<rparr>,
            message = js ''unexpected token'', severity = Error\<rparr>"
    using bracketed_diag(1) [of "js ''3''" "js ''5''" "js '' unexpected token''"]
    by (simp add: js_def parseInt_def char_defs)
qed

lemma boom_then_token:
  "error_lines (js ''boom'' @ 10 # js ''[3:5] unexpected token'' @ [10]) =
     [js ''boom'', js ''[3:5] unexpected token'']"
  "split_nl (js ''boom'' @ 10 # js ''[3:5] unexpected token'' @ [10]) =
     [js ''boom'', js ''[3:5] unexpected token'', []]"
  "locate (js ''boom'' @ 10 # js ''[3:5] unexpected token'' @ [10]) =
     Some [\<lparr>drange = \<lparr>start = \<lparr>line = 0, character = 0\<rparr>,
                       endp = \<lparr>line = 0, character = MAX_SAFE_INTEGER\<rparr>\<rparr>,
            message = js ''boom'', severity = Error\<rparr>,
           \<lparr>drange = \<lparr>start = \<lparr>line = 2, character = 4\<rparr>,
                       endp = \<lparr>line = 2, character = MAX_SAFE_INTEGER\<rparr>\<rparr>,
            message = js ''unexpected token'', severity = Error\<rparr>]"
proof -
  show e: "error_lines (js ''boom'' @ 10 # js ''[3:5] unexpected token'' @ [10]) =
     [js ''boom'', js ''[3:5] unexpected token'']"
    using diag_boom(2,3) unexpected_token(2,3)
    by (simp add: error_lines_line error_lines_Nil)
  show "split_nl (js ''boom'' @ 10 # js ''[3:5] unexpected token'' @ [10]) =
     [js ''boom'', js ''[3:5] unexpected token'', []]"
    using diag_boom(3) unexpected_token(3) by (simp add: split_nl_line)
  show "locate (js ''boom'' @ 10 # js ''[3:5] unexpected token'' @ [10]) =
     Some [\<lparr>drange = \<lparr>start = \<lparr>line = 0, character = 0\<rparr>,
                       endp = \<lparr>line = 0, character = MAX_SAFE_INTEGER\<rparr>\<rparr>,
            message = js ''boom'', severity = Error\<rparr>,
           \<lparr>drange = \<lparr>start = \<lparr>line = 2, character = 4\<rparr>,
                       endp = \<lparr>line = 2, character = MAX_SAFE_INTEGER\<rparr>\<rparr>,
            message = js ''unexpected token'', severity = Error\<rparr>]"
    unfolding locate_error_lines e by (simp add: diag_boom(1) unexpected_token(4))
qed

text \<open>
  Claim C2, as amended. Let the \<open>i\<close>-th line of an error text that is not blank begin
  with an opening bracket, digits, a colon, digits and a closing bracket, both numbers at
  most \<open>2 ^ 53\<close>, and have a message after them. Then every list that \<open>locate\<close> produces
  for the text has one diagnostic for each line that is not blank, and the \<open>i\<close>-th is the
  diagnostic of this line. Its line is the first number minus 1 and its column the
  second number minus 1, each raised to 0 when that is negative (\<^verbatim>\<open>Math.max(0, ...)\<close>).
  Its message is what follows the closing bracket and the white space after it, up to
  the first line terminator (CR, U+2028, U+2029) or the end of the line: the group
  \<^verbatim>\<open>(.*)\<close> stops there. The same holds of the list of the handler of the second
  variant. A list is produced whenever no line of the text has a bracketed form with an
  empty message.
\<close>

theorem locate_bracketed_form:
  assumes "d1 \<noteq> []" "\<forall>c\<in>set d1. is_digit c"
      and "d2 \<noteq> []" "\<forall>c\<in>set d2. is_digit c"
      and "takeWhile (\<lambda>c. \<not> is_line_terminator c) (dropWhile is_space rest) \<noteq> []"
      and "parseInt d1 \<le> 2 ^ 53" "parseInt d2 \<le> 2 ^ 53"
      and "i < length (error_lines errorText)"
      and "error_lines errorText ! i = js ''['' @ d1 @ js '':'' @ d2 @ js '']'' @ rest"
  shows "(\<forall>ds. locate errorText = Some ds \<or> onSave_callback True errorText = Some ds \<longrightarrow>
            length ds = length (error_lines errorText) \<and>
            ds ! i =
              \<lparr>drange = \<lparr>start = \<lparr>line = max 0 (parseInt d1 - 1),
                                   character = max 0 (parseInt d2 - 1)\<rparr>,
                          endp = \<lparr>line = max 0 (parseInt d1 - 1),
                                  character = MAX_SAFE_INTEGER\<rparr>\<rparr>,
               message = takeWhile (\<lambda>c. \<not> is_line_terminator c) (dropWhile is_space rest),
               severity = Error\<rparr>)
     \<and> ((\<forall>l\<in>set (split_nl errorText). \<forall>g1 g2. bracket_match l \<noteq> Some (g1, g2, [])) \<longrightarrow>
          (\<exists>ds. locate errorText = Some ds) \<and> (\<exists>ds. onSave_callback True errorText = Some ds))"
proof -
  let ?D = "\<lparr>drange = \<lparr>start = \<lparr>line = max 0 (parseInt d1 - 1),
                                   character = max 0 (parseInt d2 - 1)\<rparr>,
                          endp = \<lparr>line = max 0 (parseInt d1 - 1),
                                  character = MAX_SAFE_INTEGER\<rparr>\<rparr>,
               message = takeWhile (\<lambda>c. \<not> is_line_terminator c) (dropWhile is_space rest),
               severity = Error\<rparr>"
  have d: "diagnostic_of (error_lines errorText ! i) = Some ?D"
      "onSave_diagnostic_of (error_lines errorText ! i) = Some ?D"
    using bracketed_diag [OF assms(1-7)] assms(9) by simp_all
  have "length ds = length (error_lines errorText) \<and> ds ! i = ?D"
    if "locate errorText = Some ds \<or> onSave_callback True errorText = Some ds" for ds
    using that
  proof
    assume l: "locate errorText = Some ds"
    from locate_nth [OF l] assms(8) d(1) show ?thesis by simp
  next
    assume l: "onSave_callback True errorText = Some ds"
    from onSave_nth [OF l] assms(8) d(2) show ?thesis by simp
  qed
  moreover have "(\<exists>ds. locate errorText = Some ds) \<and> (\<exists>ds. onSave_callback True errorText = Some ds)"
    if "\<forall>l\<in>set (split_nl errorText). \<forall>g1 g2. bracket_match l \<noteq> Some (g1, g2, [])"
  proof -
    from that have "locate errorText \<noteq> None" "onSave_callback True errorText \<noteq> None"
      unfolding locate_None_iff onSave_None_iff by blast+
    then show ?thesis by auto
  qed
  ultimately show ?thesis by blast
qed

theorem locate_bracketed_form_witness:
  "locate (js ''[3:5] unexpected token'') =
     Some [\<lparr>drange = \<lparr>start = \<lparr>line = 2, character = 4\<rparr>,
                       endp = \<lparr>line = 2, character = MAX_SAFE_INTEGER\<rparr>\<rparr>,
            message = js ''unexpected token'', severity = Error\<rparr>]
   \<and> onSave_callback True (js ''[3:5] unexpected token'') =
     Some [\<lparr>drange = \<lparr>start = \<lparr>line = 2, character = 4\<rparr>,
                       endp = \<lparr>line = 2, character = MAX_SAFE_INTEGER\<rparr>\<rparr>,
            message = js ''unexpected token'', severity = Error\<rparr>]
   \<and> locate (js ''boom'' @ 10 # js ''[3:5] unexpected token'' @ [10]) =
     Some [\<lparr>drange = \<lparr>start = \<lparr>line = 0, character = 0\<rparr>,
                       endp = \<lparr>line = 0, character = MAX_SAFE_INTEGER\<rparr>\<rparr>,
            message = js ''boom'', severity = Error\<rparr>,
           \<lparr>drange = \<lparr>start = \<lparr>line = 2, character = 4\<rparr>,
                       endp = \<lparr>line = 2, character = MAX_SAFE_INTEGER\<rparr>\<rparr>,
            message = js ''unexpected token'', severity = Error\<rparr>]
   \<and> the (locate (js ''boom'' @ 10 # js ''[3:5] unexpected token'' @ [10])) ! 1 =
       \<lparr>drange = \<lparr>start = \<lparr>line = 2, character = 4\<rparr>,
                  endp = \<lparr>line = 2, character = MAX_SAFE_INTEGER\<rparr>\<rparr>,
        message = js ''unexpected token'', severity = Error\<rparr>"
proof -
  let ?l = "js ''[3:5] unexpected token''"
  let ?t = "js ''boom'' @ 10 # js ''[3:5] unexpected token'' @ [10]"
  let ?D = "\<lparr>drange = \<lparr>start = \<lparr>line = 2, character = 4\<rparr>,
                       endp = \<lparr>line = 2, character = MAX_SAFE_INTEGER\<rparr>\<rparr>,
            message = js ''unexpected token'', severity = Error\<rparr>"
  have e: "error_lines ?l = [?l]" "split_nl ?l = [?l]"
    using unexpected_token(2,3) by (simp_all add: error_lines_single split_nl_single)
  have i0: "0 < length (error_lines ?l)"
    and l0: "error_lines ?l ! 0 =
          js ''['' @ js ''3'' @ js '':'' @ js ''5'' @ js '']'' @ js '' unexpected token''"
    by (simp_all add: e) (simp add: js_def)
  have i1: "1 < length (error_lines ?t)"
    and l1: "error_lines ?t ! 1 =
          js ''['' @ js ''3'' @ js '':'' @ js ''5'' @ js '']'' @ js '' unexpected token''"
    by (simp_all add: boom_then_token(1)) (simp add: js_def)
  note th = locate_bracketed_form [OF token_parts(1-7)]
  have one: "(\<forall>ds. locate ?l = Some ds \<or> onSave_callback True ?l = Some ds \<longrightarrow>
         length ds = 1 \<and> ds ! 0 = ?D)
     \<and> (\<exists>ds. locate ?l = Some ds) \<and> (\<exists>ds. onSave_callback True ?l = Some ds)"
    using th [OF i0 l0] by (simp add: e token_parts(8-11) unexpected_token(1))
  then obtain ds ds' where "locate ?l = Some ds" "onSave_callback True ?l = Some ds'"
    by blast
  moreover from this one have "ds = [?D]" "ds' = [?D]"
    by (simp_all add: nth_singleton)
  moreover have "the (locate ?t) ! 1 = ?D"
    using th [OF i1 l1] by (simp add: boom_then_token(3) token_parts(8-10))
  ultimately show ?thesis by (simp add: boom_then_token(3))
qed

text \<open>
  The claim as it was stated fails on the line \<^verbatim>\<open>[0:1] a\<close> ended by a carriage return:
  the diagnostic is at line 0, not at \<open>0 - 1\<close>, and its message is \<^verbatim>\<open>a\<close> without the
  carriage return.
\<close>

theorem locate_bracketed_form_counterexample:
  "locate (js ''[0:1] a'' @ [13]) =
     Some [\<lparr>drange = \<lparr>start = \<lparr>line = 0, character = 0\<rparr>,
                       endp = \<lparr>line = 0, character = MAX_SAFE_INTEGER\<rparr>\<rparr>,
            message = js ''a'', severity = Error\<rparr>]
   \<and> line (start (drange (hd (the (locate (js ''[0:1] a'' @ [13])))))) \<noteq> parseInt (js ''0'') - 1
   \<and> message (hd (the (locate (js ''[0:1] a'' @ [13])))) \<noteq> js ''a'' @ [13]
   \<and> message (hd (the (locate (js ''[0:1] a'' @ [13])))) \<noteq> js '' a'' @ [13]"
  using bracketed_line [of "js ''0''" "js ''1''" "js '' a'' @ [13]"]
  by (simp add: js_def parseInt_def char_defs)

lemma letter_l: "same_letter k 108 \<longleftrightarrow> k = 108 \<or> k = 76"
  by (auto simp: same_letter_def is_upper_def)

lemma line_at_shape:
  assumes kw: "list_all2 same_letter kw (js ''line'')"
      and ws: "ws \<noteq> []" "\<forall>c\<in>set ws. is_space c"
      and ds: "ds \<noteq> []" "\<forall>c\<in>set ds. is_digit c"
      and post: "post = [] \<or> \<not> is_digit (hd post)"
  shows "line_at (kw @ ws @ ds @ post) = Some ds"
proof -
  from kw have len: "length kw = 4"
    by (auto dest: list_all2_lengthD simp: js_def)
  obtain w ws' where w: "ws = w # ws'" using ws by (cases ws) auto
  have hd_ds: "\<not> is_space (hd (ds @ post))"
    using ds digit_not_space by (cases ds) auto
  have r: "dropWhile is_space (ws' @ ds @ post) = ds @ post"
    using dropWhile_run [of ws' is_space "ds @ post"] ws w hd_ds ds by simp
  have t: "takeWhile is_digit (ds @ post) = ds"
    using takeWhile_run [of ds is_digit post] ds post by blast
  show ?thesis
    using len kw ws w ds by (simp add: line_at_def r t)
qed

lemma line_at_extend:
  assumes none: "line_at s = None" and s: "s \<noteq> []" and k: "same_letter k 108"
  shows "line_at (s @ k # t) = None"
proof -
  have k': "k = 108 \<or> k = 76" using k by (simp add: letter_l)
  then have kn: "\<not> is_space k" "\<not> is_digit k" "\<not> same_letter k 105" "\<not> same_letter k 110"
      "\<not> same_letter k 101"
    by (auto simp: char_defs same_letter_def)
  show ?thesis
  proof (cases "length s < 4")
    case True
    then consider a where "s = [a]" | a b where "s = [a, b]" | a b c where "s = [a, b, c]"
      using s by (cases s; cases "tl s"; cases "tl (tl s)"; cases "tl (tl (tl s))") auto
    then show ?thesis
      using kn by cases (auto simp: line_at_def js_def)
  next
    case False
    then have tk: "take 4 (s @ k # t) = take 4 s" and dr: "drop 4 (s @ k # t) = drop 4 s @ k # t"
      by simp_all
    have la: "line_at (s @ k # t) =
        (if \<not> list_all2 same_letter (take 4 s) (js ''line'') then None
         else (case drop 4 s @ k # t of
                 [] \<Rightarrow> None
               | c # r \<Rightarrow>
                   if \<not> is_space c \<or> takeWhile is_digit (dropWhile is_space r) = [] then None
                   else Some (takeWhile is_digit (dropWhile is_space r))))"
      unfolding line_at_def tk dr using False by simp
    show ?thesis
    proof (cases "list_all2 same_letter (take 4 s) (js ''line'')")
      case no: False
      then show ?thesis by (simp add: la)
    next
      case yes: True
      show ?thesis
      proof (cases "drop 4 s")
        case Nil
        then show ?thesis using kn by (simp add: la)
      next
        case (Cons c r)
        show ?thesis
        proof (cases "is_space c")
          case False
          then show ?thesis using Cons by (simp add: la)
        next
          case True
          with none yes Cons \<open>\<not> length s < 4\<close>
          have e: "takeWhile is_digit (dropWhile is_space r) = []"
            by (simp add: line_at_def split: if_splits)
          have "takeWhile is_digit (dropWhile is_space (r @ k # t)) = []"
          proof (cases "dropWhile is_space r")
            case Nil
            then have "\<forall>x\<in>set r. is_space x" by (simp add: dropWhile_eq_Nil_conv)
            then have "dropWhile is_space (r @ k # t) = k # t"
              using kn by (simp add: dropWhile_append2)
            then show ?thesis using kn by simp
          next
            case (Cons x xs)
            then have "\<not> is_space x" using hd_dropWhile [of is_space r] by simp
            moreover have "x \<in> set r" using Cons set_dropWhileD [of x is_space r] by simp
            ultimately have "dropWhile is_space (r @ k # t) = dropWhile is_space r @ k # t"
              by (simp add: dropWhile_append1)
            then show ?thesis using e Cons by (simp split: if_splits)
          qed
          then show ?thesis using Cons by (simp add: la)
        qed
      qed
    qed
  qed
qed

lemma line_match_first:
  assumes "line_match pre = None" and "line_at (k # t) = Some ds" and "same_letter k 108"
  shows "line_match (pre @ k # t) = Some ds"
  using assms
proof (induction pre)
  case Nil
  then show ?case by simp
next
  case (Cons p pre)
  then have "line_at (p # pre) = None" "line_match pre = None"
    by (simp_all split: option.splits)
  then show ?case
    using Cons line_at_extend [of "p # pre" k t] by simp
qed

lemma prose_diag:
  assumes nb: "bracket_match errLine = None"
      and shape: "errLine = pre @ kw @ ws @ ds @ post"
      and kw: "list_all2 same_letter kw (js ''line'')"
      and ws: "ws \<noteq> []" "\<forall>c\<in>set ws. is_space c"
      and ds: "ds \<noteq> []" "\<forall>c\<in>set ds. is_digit c"
      and post: "post = [] \<or> \<not> is_digit (hd post)"
      and first: "line_match pre = None"
  shows "diagnostic_of errLine =
           Some \<lparr>drange = \<lparr>start = \<lparr>line = max 0 (parseInt ds - 1), character = 0\<rparr>,
                            endp = \<lparr>line = max 0 (parseInt ds - 1),
                                    character = MAX_SAFE_INTEGER\<rparr>\<rparr>,
                 message = trim errLine, severity = Error\<rparr>"
proof -
  from kw obtain k kw' where k: "kw = k # kw'" "same_letter k 108"
    by (cases kw) (auto simp: js_def)
  have at: "line_at (k # kw' @ ws @ ds @ post) = Some ds"
    using line_at_shape [OF kw ws ds post] k by simp
  have lm: "line_match errLine = Some ds"
    using line_match_first [OF first at k(2)] shape k by simp
  have "\<not> is_space k" using k(2) by (auto simp: letter_l is_space_def)
  moreover have "k \<in> set errLine" using shape k by simp
  ultimately have t: "trim errLine \<noteq> []" by (metis trim_not_Nil)
  show ?thesis
    using MAX_SAFE_INTEGER_pos t
    by (simp add: diagnostic_of_eq nb lm Range_to_eol new_Diagnostic_def)
qed

lemma prose_line:
  assumes nb: "bracket_match errLine = None"
      and shape: "errLine = pre @ kw @ ws @ ds @ post"
      and kw: "list_all2 same_letter kw (js ''line'')"
      and ws: "ws \<noteq> []" "\<forall>c\<in>set ws. is_space c"
      and ds: "ds \<noteq> []" "\<forall>c\<in>set ds. is_digit c"
      and post: "post = [] \<or> \<not> is_digit (hd post)"
      and first: "line_match pre = None"
      and nl: "10 \<notin> set errLine"
      and exact: "parseInt ds \<le> 2 ^ 53"
  shows "locate errLine =
           Some [\<lparr>drange = \<lparr>start = \<lparr>line = max 0 (parseInt ds - 1), character = 0\<rparr>,
                             endp = \<lparr>line = max 0 (parseInt ds - 1),
                                     character = MAX_SAFE_INTEGER\<rparr>\<rparr>,
                  message = trim errLine, severity = Error\<rparr>]"
proof -
  from kw obtain k kw' where k: "kw = k # kw'" "same_letter k 108"
    by (cases kw) (auto simp: js_def)
  have at: "line_at (k # kw' @ ws @ ds @ post) = Some ds"
    using line_at_shape [OF kw ws ds post] k by simp
  have lm: "line_match errLine = Some ds"
    using line_match_first [OF first at k(2)] shape k by simp
  have "\<not> is_space k" using k(2) by (auto simp: letter_l is_space_def)
  moreover have "k \<in> set errLine" using shape k by simp
  ultimately have t: "trim errLine \<noteq> []" by (metis trim_not_Nil)
  with nl have one: "locate errLine = map_option (\<lambda>d. [d]) (diagnostic_of errLine)"
    by (rule locate_single(1))
  show ?thesis
    unfolding one using MAX_SAFE_INTEGER_pos t
    by (simp add: diagnostic_of_eq nb lm Range_to_eol new_Diagnostic_def)
qed

lemma boom_no_bracket: "bracket_match (js ''Error: boom at line 10'') = None"
  by (simp add: js_def bracket_at_def)

lemma boom_pre: "line_match (js ''Error: boom at '') = None"
  by (simp add: js_def line_at_def same_letter_def is_upper_def)

lemma boom_parts:
  "js ''Error: boom at line 10'' = js ''Error: boom at '' @ js ''line'' @ js '' '' @ js ''10'' @ []"
  "list_all2 same_letter (js ''line'') (js ''line'')"
  "js '' '' \<noteq> []" "\<forall>c\<in>set (js '' ''). is_space c"
  "js ''10'' \<noteq> []" "\<forall>c\<in>set (js ''10''). is_digit c"
  "[] = [] \<or> \<not> is_digit (hd [])"
  "parseInt (js ''10'') \<le> 2 ^ 53"
  "parseInt (js ''10'') = 10"
  "trim (js ''Error: boom at line 10'') = js ''Error: boom at line 10''"
  "10 \<notin> set (js ''Error: boom at line 10'')"
  "js ''Error: boom at line 10'' \<noteq> []"
  by (simp_all add: js_def parseInt_def char_defs same_letter_def trim_def)

lemma boom_then_prose:
  "error_lines (js ''boom'' @ 10 # js ''Error: boom at line 10'' @ [10]) =
     [js ''boom'', js ''Error: boom at line 10'']"
  "split_nl (js ''boom'' @ 10 # js ''Error: boom at line 10'' @ [10]) =
     [js ''boom'', js ''Error: boom at line 10'', []]"
  using diag_boom(2,3) boom_parts(10-12)
  by (simp_all add: error_lines_line error_lines_Nil split_nl_line)

lemma at_line_0: "locate (js ''boom at line 0'') =
     Some [\<lparr>drange = \<lparr>start = \<lparr>line = 0, character = 0\<rparr>,
                       endp = \<lparr>line = 0, character = MAX_SAFE_INTEGER\<rparr>\<rparr>,
            message = js ''boom at line 0'', severity = Error\<rparr>]"
proof -
  have nb: "bracket_match (js ''boom at line 0'') = None"
    by (simp add: js_def bracket_at_def)
  have pre: "line_match (js ''boom at '') = None"
    by (simp add: js_def line_at_def same_letter_def is_upper_def)
  have t: "trim (js ''boom at line 0'') = js ''boom at line 0''"
    by (simp add: js_def trim_def is_space_def)
  have e: "js ''boom at line 0'' = js ''boom at '' @ js ''line'' @ js '' '' @ js ''0'' @ []"
    by (simp add: js_def)
  show ?thesis
    using prose_line [OF nb e _ _ _ _ _ _ pre]
    by (simp add: t) (simp add: js_def parseInt_def char_defs same_letter_def)
qed

lemma bracket_inside: "locate (js ''Error [3:5] at line 10'') =
     Some [\<lparr>drange = \<lparr>start = \<lparr>line = 2, character = 4\<rparr>,
                       endp = \<lparr>line = 2, character = MAX_SAFE_INTEGER\<rparr>\<rparr>,
            message = js ''at line 10'', severity = Error\<rparr>]"
proof -
  have m: "bracket_match (js ''Error [3:5] at line 10'') = Some (js ''3'', js ''5'', js ''at line 10'')"
    by (simp add: js_def bracket_at_def char_defs)
  have "10 \<notin> set (js ''Error [3:5] at line 10'')"
    by (simp add: js_def)
  moreover have "trim (js ''Error [3:5] at line 10'') \<noteq> []"
    by (rule trim_not_Nil [of 69]) (simp_all add: js_def is_space_def)
  ultimately have one: "locate (js ''Error [3:5] at line 10'') =
      map_option (\<lambda>d. [d]) (diagnostic_of (js ''Error [3:5] at line 10''))"
    by (rule locate_single(1))
  have p: "parseInt (js ''3'') = 3" "parseInt (js ''5'') = 5"
    by (simp_all add: js_def parseInt_def)
  have r: "Range \<lparr>line = 2, character = 4\<rparr> \<lparr>line = 2, character = MAX_SAFE_INTEGER\<rparr> =
      \<lparr>start = \<lparr>line = 2, character = 4\<rparr>,
       endp = \<lparr>line = 2, character = MAX_SAFE_INTEGER\<rparr>\<rparr>"
    by (simp add: Range_def isBefore_def MAX_SAFE_INTEGER_def)
  have ne: "js ''at line 10'' \<noteq> []" by (simp add: js_def)
  show ?thesis
    unfolding one using ne by (simp add: diagnostic_of_eq m p r new_Diagnostic_def)
qed

text \<open>
  Claim C3, as amended. Let \<open>errLine\<close> be the \<open>i\<close>-th line of an error text that is not
  blank; let the bracketed form match nowhere in it (the expression is not anchored, so
  not only not at the start), and let \<open>pre\<close> be followed in it by the letters of
  \<^verbatim>\<open>line\<close> in either case, white space, and the digit run \<open>ds\<close> in full, this being the
  first such place and the number at most \<open>2 ^ 53\<close>. Then every list that \<open>locate\<close>
  produces for the text has one diagnostic for each line that is not blank, and the
  \<open>i\<close>-th is the diagnostic of this line: at the line \<open>ds\<close> denotes minus 1, raised to 0
  when that is negative, at column 0, with the trimmed line as its message. A list is
  produced whenever no line of the text has a bracketed form with an empty message.
\<close>

theorem locate_prose_form:
  assumes "bracket_match errLine = None"
      and "errLine = pre @ kw @ ws @ ds @ post"
      and "list_all2 same_letter kw (js ''line'')"
      and "ws \<noteq> []" "\<forall>c\<in>set ws. is_space c"
      and "ds \<noteq> []" "\<forall>c\<in>set ds. is_digit c"
      and "post = [] \<or> \<not> is_digit (hd post)"
      and "line_match pre = None"
      and "parseInt ds \<le> 2 ^ 53"
      and "i < length (error_lines errorText)"
      and "error_lines errorText ! i = errLine"
  shows "(\<forall>r. locate errorText = Some r \<longrightarrow>
            length r = length (error_lines errorText) \<and>
            r ! i =
              \<lparr>drange = \<lparr>start = \<lparr>line = max 0 (parseInt ds - 1), character = 0\<rparr>,
                          endp = \<lparr>line = max 0 (parseInt ds - 1),
                                  character = MAX_SAFE_INTEGER\<rparr>\<rparr>,
               message = trim errLine, severity = Error\<rparr>)
     \<and> ((\<forall>l\<in>set (split_nl errorText). \<forall>g1 g2. bracket_match l \<noteq> Some (g1, g2, [])) \<longrightarrow>
          (\<exists>r. locate errorText = Some r))"
proof -
  let ?D = "\<lparr>drange = \<lparr>start = \<lparr>line = max 0 (parseInt ds - 1), character = 0\<rparr>,
                          endp = \<lparr>line = max 0 (parseInt ds - 1),
                                  character = MAX_SAFE_INTEGER\<rparr>\<rparr>,
               message = trim errLine, severity = Error\<rparr>"
  have d: "diagnostic_of (error_lines errorText ! i) = Some ?D"
    using prose_diag [OF assms(1-9)] assms(12) by simp
  have "length r = length (error_lines errorText) \<and> r ! i = ?D"
    if l: "locate errorText = Some r" for r
    using locate_nth [OF l] assms(11) d by simp
  moreover have "\<exists>r. locate errorText = Some r"
    if "\<forall>l\<in>set (split_nl errorText). \<forall>g1 g2. bracket_match l \<noteq> Some (g1, g2, [])"
  proof -
    from that have "locate errorText \<noteq> None"
      unfolding locate_None_iff by blast
    then show ?thesis by auto
  qed
  ultimately show ?thesis by blast
qed

theorem locate_prose_form_witness:
  "locate (js ''Error: boom at line 10'') =
     Some [\<lparr>drange = \<lparr>start = \<lparr>line = 9, character = 0\<rparr>,
                       endp = \<lparr>line = 9, character = MAX_SAFE_INTEGER\<rparr>\<rparr>,
            message = js ''Error: boom at line 10'', severity = Error\<rparr>]
   \<and> (\<exists>r. locate (js ''boom'' @ 10 # js ''Error: boom at line 10'' @ [10]) = Some r \<and>
          length r = 2 \<and>
          r ! 1 = \<lparr>drange = \<lparr>start = \<lparr>line = 9, character = 0\<rparr>,
                              endp = \<lparr>line = 9, character = MAX_SAFE_INTEGER\<rparr>\<rparr>,
                   message = js ''Error: boom at line 10'', severity = Error\<rparr>)"
proof -
  let ?l = "js ''Error: boom at line 10''"
  let ?t = "js ''boom'' @ 10 # js ''Error: boom at line 10'' @ [10]"
  let ?D = "\<lparr>drange = \<lparr>start = \<lparr>line = 9, character = 0\<rparr>,
                       endp = \<lparr>line = 9, character = MAX_SAFE_INTEGER\<rparr>\<rparr>,
            message = js ''Error: boom at line 10'', severity = Error\<rparr>"
  have e: "error_lines ?l = [?l]" "split_nl ?l = [?l]"
    using boom_parts(10-12) by (simp_all add: error_lines_single split_nl_single)
  have i0: "0 < length (error_lines ?l)" and l0: "error_lines ?l ! 0 = ?l"
    by (simp_all add: e)
  have i1: "1 < length (error_lines ?t)" and l1: "error_lines ?t ! 1 = ?l"
    by (simp_all add: boom_then_prose(1))
  note th = locate_prose_form [OF boom_no_bracket boom_parts(1-7) boom_pre boom_parts(8)]
  have one: "(\<forall>r. locate ?l = Some r \<longrightarrow> length r = 1 \<and> r ! 0 = ?D) \<and> (\<exists>r. locate ?l = Some r)"
    using th [OF i0 l0] by (simp add: e boom_parts(9,10) boom_no_bracket)
  then obtain r where "locate ?l = Some r" by blast
  moreover from this one have "r = [?D]"
    by (simp add: nth_singleton)
  moreover
  have two: "(\<forall>r. locate ?t = Some r \<longrightarrow> length r = 2 \<and> r ! 1 = ?D) \<and> (\<exists>r. locate ?t = Some r)"
    using th [OF i1 l1]
    by (simp add: boom_then_prose boom_parts(9,10) boom_no_bracket boom(2) bracket_at_def)
  ultimately show ?thesis by auto
qed

text \<open>
  The claim as it was stated fails on \<^verbatim>\<open>Error [3:5] at line 10\<close>, which does not begin
  with the bracketed form and mentions line 10: the bracketed form inside the line is
  found and the diagnostic is at line 2, column 4, with the text after the bracket as
  its message. It also fails on \<^verbatim>\<open>boom at line 0\<close>, whose diagnostic is at line 0 and
  not at \<open>0 - 1\<close>.
\<close>

theorem locate_prose_form_counterexample:
  "bracket_at (js ''Error [3:5] at line 10'') = None
   \<and> line_match (js ''Error [3:5] at line 10'') = Some (js ''10'')
   \<and> locate (js ''Error [3:5] at line 10'') =
       Some [\<lparr>drange = \<lparr>start = \<lparr>line = 2, character = 4\<rparr>,
                         endp = \<lparr>line = 2, character = MAX_SAFE_INTEGER\<rparr>\<rparr>,
              message = js ''at line 10'', severity = Error\<rparr>]
   \<and> line (start (drange (hd (the (locate (js ''Error [3:5] at line 10'')))))) \<noteq>
       parseInt (js ''10'') - 1
   \<and> bracket_match (js ''boom at line 0'') = None
   \<and> line (start (drange (hd (the (locate (js ''boom at line 0'')))))) \<noteq> parseInt (js ''0'') - 1"
proof -
  have "bracket_at (js ''Error [3:5] at line 10'') = None"
    by (simp add: js_def bracket_at_def)
  moreover have "line_match (js ''Error [3:5] at line 10'') = Some (js ''10'')"
    by (simp add: js_def line_at_def same_letter_def char_defs)
  moreover have "bracket_match (js ''boom at line 0'') = None"
    by (simp add: js_def bracket_at_def)
  moreover have "parseInt (js ''10'') = 10" "parseInt (js ''0'') = 0"
    by (simp_all add: js_def parseInt_def)
  ultimately show ?thesis
    by (simp add: bracket_inside at_line_0)
qed

section \<open>Lines and patterns\<close>

lemma space_not_word: "is_space c \<Longrightarrow> \<not> is_word c"
  by (auto simp: char_defs)

lemma keyword_identD:
  assumes "keyword_ident kw first ln = Some (nm, r)"
  shows "\<exists>ws w ws' h t. ln = ws @ kw @ (w # ws') @ (h # t) @ r \<and> (\<forall>c\<in>set ws. is_space c) \<and>
           dropWhile is_space ln = kw @ (w # ws') @ (h # t) @ r \<and>
           is_space w \<and> (\<forall>c\<in>set ws'. is_space c) \<and> nm = h # t \<and> first h \<and>
           (\<forall>c\<in>set t. is_word c) \<and> (r = [] \<or> \<not> is_word (hd r))"
proof -
  let ?r0 = "dropWhile is_space ln"
  from assms have p: "prefix kw ?r0"
    by (auto simp: keyword_ident_def Let_def split: if_splits)
  then obtain r1 where r1: "?r0 = kw @ r1" by (auto simp: prefix_def)
  then have d: "drop (length kw) ?r0 = r1" by simp
  from assms p d obtain w r2 where w: "r1 = w # r2" "is_space w"
    by (cases r1) (auto simp: keyword_ident_def Let_def split: if_splits)
  from assms p d w obtain h t where h: "dropWhile is_space r2 = h # t" "first h"
      "nm = h # takeWhile is_word t" "r = dropWhile is_word t"
    by (cases "dropWhile is_space r2") (auto simp: keyword_ident_def Let_def split: if_splits)
  have ln: "ln = takeWhile is_space ln @ ?r0" by simp
  have r2: "r2 = takeWhile is_space r2 @ h # t"
    using h(1) takeWhile_dropWhile_id [of is_space r2] by simp
  have t: "t = takeWhile is_word t @ r"
    using h(4) by simp
  have "ln = takeWhile is_space ln @ kw @ (w # takeWhile is_space r2) @ (h # takeWhile is_word t) @ r"
    using ln r1 w(1) r2 t by (metis append.assoc append_Cons)
  moreover have "?r0 = kw @ (w # takeWhile is_space r2) @ (h # takeWhile is_word t) @ r"
    using r1 w(1) r2 t by (metis append.assoc append_Cons)
  moreover have "\<forall>c\<in>set (takeWhile is_space ln). is_space c"
    by (meson set_takeWhileD)
  moreover have "\<forall>c\<in>set (takeWhile is_space r2). is_space c"
    by (meson set_takeWhileD)
  moreover have "\<forall>c\<in>set (takeWhile is_word t). is_word c"
    by (meson set_takeWhileD)
  moreover have "r = [] \<or> \<not> is_word (hd r)"
    using h(4) hd_dropWhile [of is_word t] by auto
  ultimately show ?thesis
    using w(2) h(2,3) by blast
qed

lemma indexOf_found:
  "0 \<le> indexOf (a @ nm @ b) nm \<and> indexOf (a @ nm @ b) nm \<le> int (length a)"
proof (induction a)
  case Nil
  show ?case
  proof (cases "nm @ b")
    case Nil
    then show ?thesis by simp
  next
    case (Cons c cs)
    then have "prefix nm (c # cs)" by (metis prefixI)
    then show ?thesis using Cons by simp
  qed
next
  case (Cons x a)
  then show ?case by auto
qed

lemma rtrim_append:
  assumes "p \<noteq> []" "\<not> P (last p)"
  shows "rev (dropWhile P (rev (p @ q))) = p @ rev (dropWhile P (rev q))"
proof (cases "\<forall>c\<in>set q. P c")
  case True
  then have "dropWhile P (rev q @ rev p) = dropWhile P (rev p)"
    using dropWhile_append2 [of "rev q" P "rev p"] by simp
  moreover have "dropWhile P (rev p) = rev p"
    using assms by (cases "rev p") (auto simp: last_rev [symmetric] simp del: last_rev)
  moreover have "dropWhile P (rev q) = []"
    using True by (simp add: dropWhile_eq_Nil_conv)
  ultimately show ?thesis by simp
next
  case False
  then obtain c where "c \<in> set (rev q)" "\<not> P c" by auto
  then have "dropWhile P (rev q @ rev p) = dropWhile P (rev q) @ rev p"
    by (rule dropWhile_append1)
  then show ?thesis by simp
qed

lemma trim_keeps_prefix:
  assumes "dropWhile is_space ln = p @ q" "p \<noteq> []" "\<not> is_space (last p)"
  shows "trim ln = p @ rev (dropWhile is_space (rev q))"
  unfolding trim_def assms(1) using assms(2,3) by (rule rtrim_append)

lemma trim_prefix_lead: "prefix (trim ln) (dropWhile is_space ln)"
proof -
  let ?x = "dropWhile is_space ln"
  have "rev ?x = takeWhile is_space (rev ?x) @ dropWhile is_space (rev ?x)" by simp
  then have "?x = rev (dropWhile is_space (rev ?x)) @ rev (takeWhile is_space (rev ?x))"
    by (metis rev_append rev_rev_ident)
  then show ?thesis by (metis prefixI trim_def)
qed

lemma lead_trim: "dropWhile is_space (trim ln) = trim ln"
proof (cases "dropWhile is_space ln")
  case Nil
  show ?thesis unfolding trim_def Nil by simp
next
  case (Cons h t)
  then have "\<not> is_space h" using hd_dropWhile [of is_space ln] by simp
  then have "trim ln = [h] @ rev (dropWhile is_space (rev t))"
    using Cons trim_keeps_prefix [of ln "[h]" t] by simp
  then show ?thesis using \<open>\<not> is_space h\<close> by simp
qed

lemma starts_with_word_trim:
  "starts_with_word kw (trim ln) \<longleftrightarrow>
     prefix kw (trim ln) \<and>
     (case drop (length kw) (trim ln) of [] \<Rightarrow> True | c # _ \<Rightarrow> \<not> is_word c)"
  by (simp add: starts_with_word_def lead_trim Let_def)

text \<open>A line on which a pattern matched: trimmed, it is the keyword, white space and
  more.\<close>

lemma keyword_ident_trim:
  assumes m: "keyword_ident kw first ln = Some (nm, r)" and f: "\<And>c. first c \<Longrightarrow> \<not> is_space c"
  shows "\<exists>w rest. trim ln = kw @ w # rest \<and> is_space w"
proof -
  from keyword_identD [OF m] obtain ws w ws' h t where
    lead: "dropWhile is_space ln = kw @ (w # ws') @ (h # t) @ r" and w: "is_space w"
    and h: "first h"
    by blast
  have "dropWhile is_space ln = (kw @ (w # ws') @ [h]) @ (t @ r)"
    using lead by simp
  moreover have "\<not> is_space (last (kw @ (w # ws') @ [h]))"
    using f [OF h] by simp
  ultimately have "trim ln = (kw @ (w # ws') @ [h]) @ rev (dropWhile is_space (rev (t @ r)))"
    by (intro trim_keeps_prefix) simp_all
  then show ?thesis using w by auto
qed

lemma keyword_ident_indexOf:
  assumes m: "keyword_ident kw first ln = Some (nm, r)"
  shows "0 \<le> indexOf ln nm \<and> indexOf ln nm < int (length ln)"
proof -
  from keyword_identD [OF m] obtain ws w ws' h t where
    ln: "ln = ws @ kw @ (w # ws') @ (h # t) @ r" and nm: "nm = h # t"
    by blast
  have "ln = (ws @ kw @ (w # ws')) @ nm @ r"
    using ln nm by simp
  then have "0 \<le> indexOf ln nm \<and> indexOf ln nm \<le> int (length (ws @ kw @ (w # ws')))"
    using indexOf_found [of "ws @ kw @ (w # ws')" nm r] by simp
  moreover have "length (ws @ kw @ (w # ws')) < length ln"
    using ln by simp
  ultimately show ?thesis by linarith
qed

text \<open>What \<open>first_match\<close> finds comes from one of the five patterns.\<close>

lemma first_match_cases:
  assumes "first_match patterns ln = Some (nm, k)"
  obtains r where "k = Function"
      "keyword_ident (js ''def'') (\<lambda>c. is_lower c \<or> is_upper c \<or> c = 95) ln = Some (nm, r)"
  | r where "k = Class" "keyword_ident (js ''class'') is_upper ln = Some (nm, r)"
  | r where "k = Struct" "keyword_ident (js ''struct'') is_upper ln = Some (nm, r)"
  | r where "k = Enum" "keyword_ident (js ''enum'') is_upper ln = Some (nm, r)"
  | r where "k = Constant"
      "keyword_ident (js ''const'') (\<lambda>c. is_upper c \<or> c = 95) ln = Some (nm, r)"
  using assms
  by (auto simp: patterns_def def_regex_def class_regex_def struct_regex_def enum_regex_def
      const_regex_def split: option.splits list.splits if_splits)

lemma first_match_indexOf:
  assumes "first_match patterns ln = Some (nm, k)"
  shows "0 \<le> indexOf ln nm \<and> indexOf ln nm < int (length ln)"
  using assms by (rule first_match_cases) (rule keyword_ident_indexOf, assumption)+

lemma first_not_space:
  "is_upper c \<Longrightarrow> \<not> is_space c"
  "is_lower c \<or> is_upper c \<or> c = 95 \<Longrightarrow> \<not> is_space c"
  "is_upper c \<or> c = 95 \<Longrightarrow> \<not> is_space c"
  by (auto simp: char_defs)

lemma starts_with_word_Cons:
  "\<not> is_space c \<Longrightarrow>
   starts_with_word kw (c # s) \<longleftrightarrow>
     prefix kw (c # s) \<and> (case drop (length kw) (c # s) of [] \<Rightarrow> True | x # _ \<Rightarrow> \<not> is_word x)"
  by (simp add: starts_with_word_def Let_def)

lemma letters_not_space:
  "\<not> is_space 99" "\<not> is_space 100" "\<not> is_space 101" "\<not> is_space 115"
  by (simp_all add: is_space_def)

lemmas keyword_evals = opens_block_def closes_block_def block_keywords_def starts_with_word_Cons
  letters_not_space js_def space_not_word

lemma defining_line_opens:
  assumes "first_match patterns ln = Some (nm, k)"
  shows "opens_block (trim ln) \<longleftrightarrow> k \<noteq> Constant"
  using assms
proof (rule first_match_cases)
  fix r
  assume k: "k = Function" and m: "keyword_ident (js ''def'')
    (\<lambda>c. is_lower c \<or> is_upper c \<or> c = 95) ln = Some (nm, r)"
  from keyword_ident_trim [OF m first_not_space(2)] obtain w rest where
    "trim ln = js ''def'' @ w # rest" "is_space w" by blast
  then show ?thesis using k by (simp add: keyword_evals)
next
  fix r
  assume k: "k = Class" and m: "keyword_ident (js ''class'') is_upper ln = Some (nm, r)"
  from keyword_ident_trim [OF m first_not_space(1)] obtain w rest where
    "trim ln = js ''class'' @ w # rest" "is_space w" by blast
  then show ?thesis using k by (simp add: keyword_evals)
next
  fix r
  assume k: "k = Struct" and m: "keyword_ident (js ''struct'') is_upper ln = Some (nm, r)"
  from keyword_ident_trim [OF m first_not_space(1)] obtain w rest where
    "trim ln = js ''struct'' @ w # rest" "is_space w" by blast
  then show ?thesis using k by (simp add: keyword_evals)
next
  fix r
  assume k: "k = Enum" and m: "keyword_ident (js ''enum'') is_upper ln = Some (nm, r)"
  from keyword_ident_trim [OF m first_not_space(1)] obtain w rest where
    "trim ln = js ''enum'' @ w # rest" "is_space w" by blast
  then show ?thesis using k by (simp add: keyword_evals)
next
  fix r
  assume k: "k = Constant" and m: "keyword_ident (js ''const'')
    (\<lambda>c. is_upper c \<or> c = 95) ln = Some (nm, r)"
  from keyword_ident_trim [OF m first_not_space(3)] obtain w rest where
    "trim ln = js ''const'' @ w # rest" "is_space w" by blast
  then show ?thesis using k by (simp add: keyword_evals)
qed

lemma defining_line_not_closes:
  assumes "first_match patterns ln = Some (nm, k)"
  shows "\<not> closes_block (trim ln)"
  using assms
proof (rule first_match_cases)
  fix r
  assume m: "keyword_ident (js ''def'') (\<lambda>c. is_lower c \<or> is_upper c \<or> c = 95) ln = Some (nm, r)"
  from keyword_ident_trim [OF m first_not_space(2)] obtain w rest where
    "trim ln = js ''def'' @ w # rest" by blast
  then show ?thesis by (simp add: keyword_evals)
next
  fix r
  assume m: "keyword_ident (js ''class'') is_upper ln = Some (nm, r)"
  from keyword_ident_trim [OF m first_not_space(1)] obtain w rest where
    "trim ln = js ''class'' @ w # rest" by blast
  then show ?thesis by (simp add: keyword_evals)
next
  fix r
  assume m: "keyword_ident (js ''struct'') is_upper ln = Some (nm, r)"
  from keyword_ident_trim [OF m first_not_space(1)] obtain w rest where
    "trim ln = js ''struct'' @ w # rest" by blast
  then show ?thesis by (simp add: keyword_evals)
next
  fix r
  assume m: "keyword_ident (js ''enum'') is_upper ln = Some (nm, r)"
  from keyword_ident_trim [OF m first_not_space(1)] obtain w rest where
    "trim ln = js ''enum'' @ w # rest" by blast
  then show ?thesis by (simp add: keyword_evals)
next
  fix r
  assume m: "keyword_ident (js ''const'') (\<lambda>c. is_upper c \<or> c = 95) ln = Some (nm, r)"
  from keyword_ident_trim [OF m first_not_space(3)] obtain w rest where
    "trim ln = js ''const'' @ w # rest" by blast
  then show ?thesis by (simp add: keyword_evals)
qed

lemma end_line:
  assumes "closes_block (trim ln)"
  shows "first_match patterns ln = None" "\<not> opens_block (trim ln)"
proof -
  from assms have "prefix (js ''end'') (trim ln)"
    by (simp add: closes_block_def starts_with_word_trim)
  then obtain t where t: "trim ln = 101 # 110 # 100 # t"
    by (auto simp: prefix_def js_def)
  then show "\<not> opens_block (trim ln)"
    by (simp add: keyword_evals)
  from t trim_prefix_lead [of ln] obtain l where "dropWhile is_space ln = 101 # 110 # 100 # l"
    by (auto simp: prefix_def)
  then show "first_match patterns ln = None"
    by (simp add: patterns_def def_regex_def class_regex_def struct_regex_def enum_regex_def
        const_regex_def keyword_ident_def js_def)
qed

section \<open>One line of the scan\<close>

lemma first_match_name:
  assumes "first_match patterns ln = Some (nm, k)"
  shows "nm \<noteq> []"
  using assms
proof (rule first_match_cases)
qed (auto dest: keyword_identD)

lemma contains_refl: "\<not> isBefore (endp r) (start r) \<Longrightarrow> contains r r"
  by (auto simp: contains_def isBefore_def)

lemma own_range_eq:
  assumes "first_match patterns ln = Some (nm, k)"
  shows "Position (int i) (indexOf ln nm) = Some \<lparr>line = int i, character = indexOf ln nm\<rparr>"
    and "Position (int i) (int (length ln)) = Some \<lparr>line = int i, character = int (length ln)\<rparr>"
    and "Range \<lparr>line = int i, character = indexOf ln nm\<rparr>
               \<lparr>line = int i, character = int (length ln)\<rparr> = own_range i ln nm"
    and "new_DocumentSymbol nm k (own_range i ln nm) (own_range i ln nm) =
           Some (symbol_of nm k (own_range i ln nm) (own_range i ln nm))"
  using first_match_indexOf [OF assms] first_match_name [OF assms]
  by (simp_all add: Position_def Range_def isBefore_def own_range_def new_DocumentSymbol_def
      contains_refl)

lemma define_symbol_none:
  "first_match patterns ln = None \<Longrightarrow> define_symbol st i ln = Some st"
  by (simp add: define_symbol_def)

lemma define_symbol_nested:
  assumes m: "first_match patterns ln = Some (nm, k)" and k: "k = Function \<or> k = Enum"
      and stk: "blockStack st \<noteq> []" and p: "fst (last (blockStack st)) < length (store st)"
  shows "define_symbol st i ln =
    Some (st\<lparr>store := (store st)[fst (last (blockStack st)) :=
                  (store st ! fst (last (blockStack st)))
                    \<lparr>children := children (store st ! fst (last (blockStack st))) @
                                   [length (store st)]\<rparr>] @
                [symbol_of nm k (own_range i ln nm) (own_range i ln nm)],
              blockStack := blockStack st @ [(length (store st), depth st)]\<rparr>)"
  using k stk p
  by (auto simp: define_symbol_def m own_range_eq [OF m] Let_def nth_append list_update_append1)

lemma define_symbol_top:
  assumes m: "first_match patterns ln = Some (nm, k)"
      and k: "k = Class \<or> k = Struct \<or> ((k = Function \<or> k = Enum) \<and> blockStack st = [])"
  shows "define_symbol st i ln =
    Some (st\<lparr>store := store st @
                [symbol_of nm k (own_range i ln nm) (own_range i ln nm)],
              symbols := symbols st @ [length (store st)],
              blockStack := blockStack st @ [(length (store st), depth st)]\<rparr>)"
  using k
  by (auto simp: define_symbol_def m own_range_eq [OF m] Let_def)

lemma define_symbol_const:
  assumes m: "first_match patterns ln = Some (nm, Constant)"
  shows "define_symbol st i ln =
    Some (st\<lparr>store := store st @
                [symbol_of nm Constant (own_range i ln nm) (own_range i ln nm)],
              symbols := symbols st @ [length (store st)]\<rparr>)"
  by (auto simp: define_symbol_def m own_range_eq [OF m] Let_def)

lemma Position_nat: "Position (int i) (int n) = Some \<lparr>line = int i, character = int n\<rparr>"
  by (simp add: Position_def)

lemma scan_line_defining:
  assumes m: "first_match patterns ln = Some (nm, k)"
  shows "scan_line st i ln =
    map_option (\<lambda>s. if k = Constant then s else s\<lparr>depth := depth s + 1\<rparr>) (define_symbol st i ln)"
  using defining_line_opens [OF m] defining_line_not_closes [OF m]
  by (cases "define_symbol st i ln") (auto simp: scan_line_def track_open_def track_end_def)

lemma scan_line_end:
  assumes c: "closes_block (trim ln)"
  shows "scan_line st i ln =
    (if blockStack st \<noteq> [] \<and> depth st - 1 \<le> snd (last (blockStack st))
     then Some (st\<lparr>store := (store st)[fst (last (blockStack st)) :=
                    (store st ! fst (last (blockStack st)))
                      \<lparr>srange := Range (start (srange (store st ! fst (last (blockStack st)))))
                                        \<lparr>line = int i, character = int (length ln)\<rparr>\<rparr>],
                  blockStack := butlast (blockStack st), depth := depth st - 1\<rparr>)
     else Some (st\<lparr>depth := depth st - 1\<rparr>))"
  using end_line [OF c] c
  by (auto simp: scan_line_def define_symbol_none track_open_def track_end_def Let_def Position_nat)

lemma scan_line_plain:
  assumes "first_match patterns ln = None" "\<not> closes_block (trim ln)"
  shows "scan_line st i ln =
    Some (if opens_block (trim ln) then st\<lparr>depth := depth st + 1\<rparr> else st)"
  using assms
  by (auto simp: scan_line_def define_symbol_none track_open_def track_end_def)

section \<open>Soundness of the references\<close>

lemma sound_state_iff:
  "sound_state st \<longleftrightarrow>
     (\<forall>a\<in>set (symbols st). a < length (store st)) \<and>
     (\<forall>f\<in>set (blockStack st). fst f < length (store st)) \<and>
     (\<forall>a<length (store st). \<forall>c\<in>set (children (store st ! a)). a < c \<and> c < length (store st))"
  unfolding sound_state_def list_all_iff by (simp add: Ball_def)

lemma sound_init: "sound_state init_state"
  unfolding sound_state_iff init_state_def by simp

lemma sound_last:
  assumes "sound_state st" "blockStack st \<noteq> []"
  shows "fst (last (blockStack st)) < length (store st)"
proof -
  have "last (blockStack st) \<in> set (blockStack st)"
    using assms(2) by (rule last_in_set)
  then show ?thesis
    using assms(1) unfolding sound_state_iff by blast
qed

lemma define_symbol_total: "\<exists>st'. define_symbol st i ln = Some st'"
proof (cases "first_match patterns ln")
  case None
  then show ?thesis by (simp add: define_symbol_none)
next
  case (Some m)
  obtain nm k where m: "m = (nm, k)" by (cases m)
  show ?thesis
    using Some unfolding m
    by (simp add: define_symbol_def own_range_eq [of ln nm k] Let_def)
qed

lemma scan_line_total: "\<exists>st'. scan_line st i ln = Some st'"
proof -
  obtain st1 where "define_symbol st i ln = Some st1"
    using define_symbol_total by blast
  then show ?thesis
    by (simp add: scan_line_def track_end_def Let_def Position_nat)
qed

lemma scan_total: "\<exists>st'. scan st i lns = Some st'"
proof (induction lns arbitrary: st i)
  case Nil
  then show ?case by simp
next
  case (Cons ln lns)
  obtain st1 where "scan_line st i ln = Some st1"
    using scan_line_total by blast
  then show ?case using Cons [of st1 "Suc i"] by simp
qed

lemma scan_append:
  "scan st i (xs @ ys) =
     (case scan st i xs of None \<Rightarrow> None | Some st1 \<Rightarrow> scan st1 (i + length xs) ys)"
proof (induction xs arbitrary: st i)
  case Nil
  then show ?case by simp
next
  case (Cons x xs)
  show ?case
  proof (cases "scan_line st i x")
    case None
    then show ?thesis by simp
  next
    case (Some st1)
    then show ?thesis using Cons [of st1 "Suc i"] by (simp cong: option.case_cong)
  qed
qed

lemma soundD1: "sound_state st \<Longrightarrow> a \<in> set (symbols st) \<Longrightarrow> a < length (store st)"
  unfolding sound_state_iff by blast

lemma soundD2: "sound_state st \<Longrightarrow> f \<in> set (blockStack st) \<Longrightarrow> fst f < length (store st)"
  unfolding sound_state_iff by blast

lemma soundD3:
  "sound_state st \<Longrightarrow> a < length (store st) \<Longrightarrow> c \<in> set (children (store st ! a)) \<Longrightarrow>
   a < c \<and> c < length (store st)"
  unfolding sound_state_iff by blast

lemma soundI:
  assumes "\<And>a. a \<in> set (symbols st) \<Longrightarrow> a < length (store st)"
      and "\<And>f. f \<in> set (blockStack st) \<Longrightarrow> fst f < length (store st)"
      and "\<And>a c. a < length (store st) \<Longrightarrow> c \<in> set (children (store st ! a)) \<Longrightarrow>
             a < c \<and> c < length (store st)"
  shows "sound_state st"
  unfolding sound_state_iff using assms by blast

lemma sound_append:
  assumes s: "sound_state st" and c: "children cell = []"
  shows "sound_state (st\<lparr>store := store st @ [cell]\<rparr>)"
proof (rule soundI)
  fix a assume "a \<in> set (symbols (st\<lparr>store := store st @ [cell]\<rparr>))"
  then have "a < length (store st)" using soundD1 [OF s, of a] by simp
  then show "a < length (store (st\<lparr>store := store st @ [cell]\<rparr>))" by simp
next
  fix f assume "f \<in> set (blockStack (st\<lparr>store := store st @ [cell]\<rparr>))"
  then have "fst f < length (store st)" using soundD2 [OF s, of f] by simp
  then show "fst f < length (store (st\<lparr>store := store st @ [cell]\<rparr>))" by simp
next
  fix a x
  assume a: "a < length (store (st\<lparr>store := store st @ [cell]\<rparr>))"
    and x: "x \<in> set (children (store (st\<lparr>store := store st @ [cell]\<rparr>) ! a))"
  have "a < x \<and> x < Suc (length (store st))"
  proof (cases "a < length (store st)")
    case True
    then have "x \<in> set (children (store st ! a))" using x by (simp add: nth_append)
    then show ?thesis using soundD3 [OF s True, of x] by simp
  next
    case False
    then have "a = length (store st)" using a by simp
    then show ?thesis using x c by simp
  qed
  then show "a < x \<and> x < length (store (st\<lparr>store := store st @ [cell]\<rparr>))" by simp
qed

lemma sound_add_symbol:
  assumes s: "sound_state st" and a: "a < length (store st)"
  shows "sound_state (st\<lparr>symbols := symbols st @ [a]\<rparr>)"
proof (rule soundI)
  fix b assume "b \<in> set (symbols (st\<lparr>symbols := symbols st @ [a]\<rparr>))"
  then have "b \<in> set (symbols st) \<or> b = a" by auto
  then show "b < length (store (st\<lparr>symbols := symbols st @ [a]\<rparr>))"
    using soundD1 [OF s, of b] a by auto
next
  fix f assume "f \<in> set (blockStack (st\<lparr>symbols := symbols st @ [a]\<rparr>))"
  then show "fst f < length (store (st\<lparr>symbols := symbols st @ [a]\<rparr>))"
    using soundD2 [OF s, of f] by simp
next
  fix b c
  assume "b < length (store (st\<lparr>symbols := symbols st @ [a]\<rparr>))"
    "c \<in> set (children (store (st\<lparr>symbols := symbols st @ [a]\<rparr>) ! b))"
  then show "b < c \<and> c < length (store (st\<lparr>symbols := symbols st @ [a]\<rparr>))"
    using soundD3 [OF s, of b c] by simp
qed

lemma sound_push:
  assumes s: "sound_state st" and a: "a < length (store st)"
  shows "sound_state (st\<lparr>blockStack := blockStack st @ [(a, d)]\<rparr>)"
proof (rule soundI)
  fix b assume "b \<in> set (symbols (st\<lparr>blockStack := blockStack st @ [(a, d)]\<rparr>))"
  then show "b < length (store (st\<lparr>blockStack := blockStack st @ [(a, d)]\<rparr>))"
    using soundD1 [OF s, of b] by simp
next
  fix f assume "f \<in> set (blockStack (st\<lparr>blockStack := blockStack st @ [(a, d)]\<rparr>))"
  then have "f \<in> set (blockStack st) \<or> f = (a, d)" by auto
  then show "fst f < length (store (st\<lparr>blockStack := blockStack st @ [(a, d)]\<rparr>))"
    using soundD2 [OF s, of f] a by auto
next
  fix b c
  assume "b < length (store (st\<lparr>blockStack := blockStack st @ [(a, d)]\<rparr>))"
    "c \<in> set (children (store (st\<lparr>blockStack := blockStack st @ [(a, d)]\<rparr>) ! b))"
  then show "b < c \<and> c < length (store (st\<lparr>blockStack := blockStack st @ [(a, d)]\<rparr>))"
    using soundD3 [OF s, of b c] by simp
qed

lemma sound_pop:
  assumes s: "sound_state st"
  shows "sound_state (st\<lparr>blockStack := butlast (blockStack st)\<rparr>)"
proof (rule soundI)
  fix b assume "b \<in> set (symbols (st\<lparr>blockStack := butlast (blockStack st)\<rparr>))"
  then show "b < length (store (st\<lparr>blockStack := butlast (blockStack st)\<rparr>))"
    using soundD1 [OF s, of b] by simp
next
  fix f assume "f \<in> set (blockStack (st\<lparr>blockStack := butlast (blockStack st)\<rparr>))"
  then have "f \<in> set (blockStack st)" by (auto dest: in_set_butlastD)
  then show "fst f < length (store (st\<lparr>blockStack := butlast (blockStack st)\<rparr>))"
    using soundD2 [OF s, of f] by simp
next
  fix b c
  assume "b < length (store (st\<lparr>blockStack := butlast (blockStack st)\<rparr>))"
    "c \<in> set (children (store (st\<lparr>blockStack := butlast (blockStack st)\<rparr>) ! b))"
  then show "b < c \<and> c < length (store (st\<lparr>blockStack := butlast (blockStack st)\<rparr>))"
    using soundD3 [OF s, of b c] by simp
qed

lemma sound_depth: "sound_state (st\<lparr>depth := d\<rparr>) = sound_state st"
  unfolding sound_state_iff by simp

lemma sound_update:
  assumes s: "sound_state st"
      and c: "\<And>x. x \<in> set (children cell) \<Longrightarrow> p < x \<and> x < length (store st)"
  shows "sound_state (st\<lparr>store := (store st)[p := cell]\<rparr>)"
proof (rule soundI)
  fix b assume "b \<in> set (symbols (st\<lparr>store := (store st)[p := cell]\<rparr>))"
  then show "b < length (store (st\<lparr>store := (store st)[p := cell]\<rparr>))"
    using soundD1 [OF s, of b] by simp
next
  fix f assume "f \<in> set (blockStack (st\<lparr>store := (store st)[p := cell]\<rparr>))"
  then show "fst f < length (store (st\<lparr>store := (store st)[p := cell]\<rparr>))"
    using soundD2 [OF s, of f] by simp
next
  fix b x
  assume b: "b < length (store (st\<lparr>store := (store st)[p := cell]\<rparr>))"
    and x: "x \<in> set (children (store (st\<lparr>store := (store st)[p := cell]\<rparr>) ! b))"
  have b': "b < length (store st)" using b by simp
  have "b < x \<and> x < length (store st)"
  proof (cases "b = p")
    case True
    then show ?thesis using x b' c [of x] by simp
  next
    case False
    then show ?thesis using x b' soundD3 [OF s b', of x] by simp
  qed
  then show "b < x \<and> x < length (store (st\<lparr>store := (store st)[p := cell]\<rparr>))" by simp
qed

lemma new_children: "children (symbol_of nm k r1 r2) = []"
  by (simp add: symbol_of_def)

lemma define_symbol_sound:
  assumes s: "sound_state st" and d: "define_symbol st i ln = Some st'"
  shows "sound_state st'"
proof (cases "first_match patterns ln")
  case None
  then show ?thesis using s d by (simp add: define_symbol_none)
next
  case (Some m)
  obtain nm k where m: "first_match patterns ln = Some (nm, k)" using Some by (cases m) auto
  let ?new = "symbol_of nm k (own_range i ln nm) (own_range i ln nm)"
  let ?st1 = "st\<lparr>store := store st @ [?new]\<rparr>"
  have s1: "sound_state ?st1"
    using s new_children by (rule sound_append)
  have len: "length (store st) < length (store ?st1)" by simp
  consider (nested) "k = Function \<or> k = Enum" "blockStack st \<noteq> []"
    | (top) "k = Class \<or> k = Struct \<or> ((k = Function \<or> k = Enum) \<and> blockStack st = [])"
    | (const) "k = Constant"
    by (cases k) auto
  then show ?thesis
  proof cases
    case nested
    let ?p = "fst (last (blockStack st))"
    let ?cell = "(store st ! ?p)\<lparr>children := children (store st ! ?p) @ [length (store st)]\<rparr>"
    have p: "?p < length (store st)" using s nested(2) by (rule sound_last)
    let ?st2 = "?st1\<lparr>store := (store ?st1)[?p := ?cell]\<rparr>"
    have "\<And>x. x \<in> set (children ?cell) \<Longrightarrow> ?p < x \<and> x < length (store ?st1)"
    proof -
      fix x assume "x \<in> set (children ?cell)"
      then have "x \<in> set (children (store st ! ?p)) \<or> x = length (store st)" by auto
      then show "?p < x \<and> x < length (store ?st1)"
        using soundD3 [OF s p, of x] p by auto
    qed
    with s1 have s2: "sound_state ?st2" by (rule sound_update)
    have "length (store st) < length (store ?st2)" by simp
    with s2 have s3: "sound_state (?st2\<lparr>blockStack := blockStack ?st2 @
        [(length (store st), depth st)]\<rparr>)"
      by (rule sound_push)
    have "st' = ?st2\<lparr>blockStack := blockStack ?st2 @ [(length (store st), depth st)]\<rparr>"
      using d define_symbol_nested [OF m nested p] p by (simp add: list_update_append1)
    then show ?thesis using s3 by simp
  next
    case top
    let ?st2 = "?st1\<lparr>symbols := symbols ?st1 @ [length (store st)]\<rparr>"
    from s1 len have s2: "sound_state ?st2" by (rule sound_add_symbol)
    have "length (store st) < length (store ?st2)" by simp
    with s2 have s3: "sound_state (?st2\<lparr>blockStack := blockStack ?st2 @
        [(length (store st), depth st)]\<rparr>)"
      by (rule sound_push)
    have "st' = ?st2\<lparr>blockStack := blockStack ?st2 @ [(length (store st), depth st)]\<rparr>"
      using d define_symbol_top [OF m top] by simp
    then show ?thesis using s3 by simp
  next
    case const
    let ?st2 = "?st1\<lparr>symbols := symbols ?st1 @ [length (store st)]\<rparr>"
    from s1 len have s2: "sound_state ?st2" by (rule sound_add_symbol)
    have "st' = ?st2"
      using d m define_symbol_const [of ln nm st i] const by simp
    then show ?thesis using s2 by simp
  qed
qed

lemma track_end_eq:
  "track_end st i ln t =
     Some (if closes_block t then
             (if blockStack st \<noteq> [] \<and> depth st - 1 \<le> snd (last (blockStack st))
              then st\<lparr>store := (store st)[fst (last (blockStack st)) :=
                       (store st ! fst (last (blockStack st)))
                         \<lparr>srange := Range (start (srange (store st ! fst (last (blockStack st)))))
                                           \<lparr>line = int i, character = int (length ln)\<rparr>\<rparr>],
                     blockStack := butlast (blockStack st), depth := depth st - 1\<rparr>
              else st\<lparr>depth := depth st - 1\<rparr>)
           else st)"
  by (simp add: track_end_def Let_def Position_nat)

lemma track_end_sound:
  assumes s: "sound_state st" and d: "track_end st i ln t = Some st'"
  shows "sound_state st'"
proof -
  let ?a = "fst (last (blockStack st))"
  let ?cell = "(store st ! ?a)\<lparr>srange := Range (start (srange (store st ! ?a)))
          \<lparr>line = int i, character = int (length ln)\<rparr>\<rparr>"
  let ?pop = "st\<lparr>store := (store st)[?a := ?cell],
                 blockStack := butlast (blockStack st), depth := depth st - 1\<rparr>"
  have st': "st' = (if closes_block t then
             (if blockStack st \<noteq> [] \<and> depth st - 1 \<le> snd (last (blockStack st))
              then ?pop else st\<lparr>depth := depth st - 1\<rparr>)
           else st)"
    using d unfolding track_end_eq by simp
  have dec: "sound_state (st\<lparr>depth := depth st - 1\<rparr>)"
    using s by (simp only: sound_depth)
  have pop: "sound_state ?pop" if ne: "blockStack st \<noteq> []"
  proof -
    have a: "?a < length (store st)" using s ne by (rule sound_last)
    have "\<And>x. x \<in> set (children ?cell) \<Longrightarrow> ?a < x \<and> x < length (store st)"
    proof -
      fix x assume "x \<in> set (children ?cell)"
      then have "x \<in> set (children (store st ! ?a))" by simp
      then show "?a < x \<and> x < length (store st)" by (rule soundD3 [OF s a])
    qed
    with s have 1: "sound_state (st\<lparr>store := (store st)[?a := ?cell]\<rparr>)"
      by (rule sound_update)
    have 2: "sound_state ((st\<lparr>store := (store st)[?a := ?cell]\<rparr>)
        \<lparr>blockStack := butlast (blockStack (st\<lparr>store := (store st)[?a := ?cell]\<rparr>))\<rparr>)"
      using 1 by (rule sound_pop)
    have "sound_state (((st\<lparr>store := (store st)[?a := ?cell]\<rparr>)
        \<lparr>blockStack := butlast (blockStack (st\<lparr>store := (store st)[?a := ?cell]\<rparr>))\<rparr>)
        \<lparr>depth := depth st - 1\<rparr>)"
      using 2 by (simp only: sound_depth)
    then show ?thesis by simp
  qed
  show ?thesis
  proof (cases "closes_block t")
    case False
    then show ?thesis using st' s by simp
  next
    case closes: True
    show ?thesis
    proof (cases "blockStack st \<noteq> [] \<and> depth st - 1 \<le> snd (last (blockStack st))")
      case True
      have "st' = ?pop" using st' unfolding if_P [OF closes] if_P [OF True] .
      then show ?thesis using pop True by simp
    next
      case False
      have "st' = st\<lparr>depth := depth st - 1\<rparr>"
        using st' unfolding if_P [OF closes] if_not_P [OF False] .
      then show ?thesis using dec by simp
    qed
  qed
qed

lemma scan_line_sound:
  assumes s: "sound_state st" and d: "scan_line st i ln = Some st'"
  shows "sound_state st'"
proof -
  from d obtain st1 where 1: "define_symbol st i ln = Some st1"
    and 2: "track_end (track_open st1 (trim ln)) i ln (trim ln) = Some st'"
    by (auto simp: scan_line_def split: bind_splits)
  have "sound_state st1" using s 1 by (rule define_symbol_sound)
  then have "sound_state (track_open st1 (trim ln))"
    by (simp add: track_open_def sound_depth)
  then show ?thesis using 2 by (rule track_end_sound)
qed

lemma scan_sound:
  "sound_state st \<Longrightarrow> scan st i lns = Some st' \<Longrightarrow> sound_state st'"
proof (induction lns arbitrary: st i)
  case Nil
  then show ?case by simp
next
  case (Cons ln lns)
  from Cons.prems(2) obtain st1 where 1: "scan_line st i ln = Some st1"
    and 2: "scan st1 (Suc i) lns = Some st'"
    by (auto split: option.splits)
  have "sound_state st1" using Cons.prems(1) 1 by (rule scan_line_sound)
  then show ?case using 2 by (rule Cons.IH)
qed

text \<open>In a sound state \<open>reify\<close> follows every reference.\<close>

lemma reify_sound:
  assumes s: "sound_state st" and a: "a < length (store st)"
  shows "reify (store st) a =
    DocumentSymbol (name (store st ! a)) (kind (store st ! a)) (srange (store st ! a))
      (selectionRange (store st ! a)) (map (reify (store st)) (children (store st ! a)))"
proof -
  have "filter (\<lambda>c. a < c \<and> c < length (store st)) (children (store st ! a)) =
      children (store st ! a)"
    using soundD3 [OF s a] by (simp add: filter_id_conv)
  then show ?thesis by (subst reify.simps) simp
qed

lemma Range_lines:
  "l1 < l2 \<Longrightarrow> Range \<lparr>line = l1, character = c1\<rparr> \<lparr>line = l2, character = c2\<rparr> =
     \<lparr>start = \<lparr>line = l1, character = c1\<rparr>, endp = \<lparr>line = l2, character = c2\<rparr>\<rparr>"
  by (simp add: Range_def isBefore_def)

section \<open>The outline of a class with two functions\<close>

text \<open>
  Claim C1. Let a text have six lines: a line on which the class pattern is the first to
  match, a line on which the function pattern matches, a line that starts with \<^verbatim>\<open>end\<close>,
  a second function line, a second \<^verbatim>\<open>end\<close> line, and a last \<^verbatim>\<open>end\<close> line. Then
  \<open>build\<close> returns one top-level symbol, the class; its children are the two functions
  in the order of the text; the range of each function ends at the end of the \<^verbatim>\<open>end\<close>
  line that follows it, and the range of the class ends at the end of the last line.
\<close>

theorem class_with_two_functions:
  assumes c: "first_match patterns c = Some (n0, Class)"
      and f1: "first_match patterns f1 = Some (n1, Function)"
      and e1: "closes_block (trim e1)"
      and f2: "first_match patterns f2 = Some (n2, Function)"
      and e2: "closes_block (trim e2)"
      and e3: "closes_block (trim e3)"
      and nl: "10 \<notin> set c" "10 \<notin> set f1" "10 \<notin> set e1" "10 \<notin> set f2" "10 \<notin> set e2"
        "10 \<notin> set e3"
  shows "build (c @ [10] @ f1 @ [10] @ e1 @ [10] @ f2 @ [10] @ e2 @ [10] @ e3) =
     Some [DocumentSymbol n0 Class
             \<lparr>start = \<lparr>line = 0, character = indexOf c n0\<rparr>,
              endp = \<lparr>line = 5, character = int (length e3)\<rparr>\<rparr>
             (own_range 0 c n0)
             [DocumentSymbol n1 Function
                \<lparr>start = \<lparr>line = 1, character = indexOf f1 n1\<rparr>,
                 endp = \<lparr>line = 2, character = int (length e1)\<rparr>\<rparr>
                (own_range 1 f1 n1) [],
              DocumentSymbol n2 Function
                \<lparr>start = \<lparr>line = 3, character = indexOf f2 n2\<rparr>,
                 endp = \<lparr>line = 4, character = int (length e2)\<rparr>\<rparr>
                (own_range 3 f2 n2) []]]"
proof -
  let ?A = "symbol_of n0 Class (own_range 0 c n0) (own_range 0 c n0)"
  let ?F = "symbol_of n1 Function (own_range 1 f1 n1) (own_range 1 f1 n1)"
  let ?G = "symbol_of n2 Function (own_range 3 f2 n2) (own_range 3 f2 n2)"
  let ?F' = "?F\<lparr>srange := \<lparr>start = \<lparr>line = 1, character = indexOf f1 n1\<rparr>,
                            endp = \<lparr>line = 2, character = int (length e1)\<rparr>\<rparr>\<rparr>"
  let ?G' = "?G\<lparr>srange := \<lparr>start = \<lparr>line = 3, character = indexOf f2 n2\<rparr>,
                            endp = \<lparr>line = 4, character = int (length e2)\<rparr>\<rparr>\<rparr>"
  let ?S1 = "\<lparr>store = [?A], symbols = [0], blockStack = [(0, 0)], depth = 1\<rparr>"
  let ?S2 = "\<lparr>store = [?A\<lparr>children := [1]\<rparr>, ?F], symbols = [0],
              blockStack = [(0, 0), (1, 1)], depth = 2\<rparr>"
  let ?S3 = "\<lparr>store = [?A\<lparr>children := [1]\<rparr>, ?F'], symbols = [0],
              blockStack = [(0, 0)], depth = 1\<rparr>"
  let ?S4 = "\<lparr>store = [?A\<lparr>children := [1, 2]\<rparr>, ?F', ?G], symbols = [0],
              blockStack = [(0, 0), (2, 1)], depth = 2\<rparr>"
  let ?S5 = "\<lparr>store = [?A\<lparr>children := [1, 2]\<rparr>, ?F', ?G'], symbols = [0],
              blockStack = [(0, 0)], depth = 1\<rparr>"
  let ?S6 = "\<lparr>store = [?A\<lparr>children := [1, 2],
                            srange := \<lparr>start = \<lparr>line = 0, character = indexOf c n0\<rparr>,
                                       endp = \<lparr>line = 5, character = int (length e3)\<rparr>\<rparr>\<rparr>,
                        ?F', ?G'], symbols = [0],
              blockStack = [], depth = 0\<rparr>"
  have s1: "scan_line init_state 0 c = Some ?S1"
    by (simp add: scan_line_defining [OF c] define_symbol_top [OF c] init_state_def)
  have s2: "scan_line ?S1 1 f1 = Some ?S2"
    by (simp add: scan_line_defining [OF f1] define_symbol_nested [OF f1] symbol_of_def)
  have s3: "scan_line ?S2 2 e1 = Some ?S3"
    by (simp add: scan_line_end [OF e1] symbol_of_def own_range_def Range_lines)
  have s4: "scan_line ?S3 3 f2 = Some ?S4"
    by (simp add: scan_line_defining [OF f2] define_symbol_nested [OF f2] symbol_of_def)
  have s5: "scan_line ?S4 4 e2 = Some ?S5"
    by (simp add: scan_line_end [OF e2] symbol_of_def own_range_def Range_lines)
  have s6: "scan_line ?S5 5 e3 = Some ?S6"
    by (simp add: scan_line_end [OF e3] symbol_of_def own_range_def Range_lines)
  have lines: "split_nl (c @ [10] @ f1 @ [10] @ e1 @ [10] @ f2 @ [10] @ e2 @ [10] @ e3) =
      [c, f1, e1, f2, e2, e3]"
    using nl by (simp add: split_nl_line split_nl_single)
  have "scan init_state 0 [c, f1, e1, f2, e2, e3] = Some ?S6"
    using s1 s2 s3 s4 s5 s6 by (simp add: numeral_eq_Suc)
  then show ?thesis
    unfolding build_def provideDocumentSymbols_def lines
    by (simp add: symbol_of_def)
qed

lemma lines_c1:
  "first_match patterns (js ''class A'') = Some (js ''A'', Class)"
  "first_match patterns (js ''  def f'') = Some (js ''f'', Function)"
  "first_match patterns (js ''  def g'') = Some (js ''g'', Function)"
  by (simp_all add: patterns_def def_regex_def class_regex_def keyword_ident_def js_def char_defs)

lemma ends_c1:
  "closes_block (trim (js ''  end''))" "closes_block (trim (js ''end''))"
  by (simp_all add: closes_block_def starts_with_word_def trim_def js_def char_defs)

theorem class_with_two_functions_witness:
  "build (js ''class A'' @ [10] @ js ''  def f'' @ [10] @ js ''  end'' @ [10] @
          js ''  def g'' @ [10] @ js ''  end'' @ [10] @ js ''end'') =
     Some [DocumentSymbol (js ''A'') Class
             \<lparr>start = \<lparr>line = 0, character = 6\<rparr>, endp = \<lparr>line = 5, character = 3\<rparr>\<rparr>
             \<lparr>start = \<lparr>line = 0, character = 6\<rparr>, endp = \<lparr>line = 0, character = 7\<rparr>\<rparr>
             [DocumentSymbol (js ''f'') Function
                \<lparr>start = \<lparr>line = 1, character = 4\<rparr>, endp = \<lparr>line = 2, character = 5\<rparr>\<rparr>
                \<lparr>start = \<lparr>line = 1, character = 4\<rparr>, endp = \<lparr>line = 1, character = 7\<rparr>\<rparr> [],
              DocumentSymbol (js ''g'') Function
                \<lparr>start = \<lparr>line = 3, character = 6\<rparr>, endp = \<lparr>line = 4, character = 5\<rparr>\<rparr>
                \<lparr>start = \<lparr>line = 3, character = 6\<rparr>, endp = \<lparr>line = 3, character = 7\<rparr>\<rparr> []]]"
proof -
  have nl: "10 \<notin> set (js ''class A'')" "10 \<notin> set (js ''  def f'')" "10 \<notin> set (js ''  end'')"
    "10 \<notin> set (js ''  def g'')" "10 \<notin> set (js ''end'')"
    by (simp_all add: js_def)
  have ix: "indexOf (js ''class A'') (js ''A'') = 6" "indexOf (js ''  def f'') (js ''f'') = 4"
    "indexOf (js ''  def g'') (js ''g'') = 6"
    by (simp_all add: js_def)
  have len: "length (js ''class A'') = 7" "length (js ''  def f'') = 7" "length (js ''  end'') = 5"
    "length (js ''  def g'') = 7" "length (js ''end'') = 3"
    by (simp_all add: js_def)
  show ?thesis
    using class_with_two_functions [OF lines_c1(1) lines_c1(2) ends_c1(1) lines_c1(3) ends_c1(1)
        ends_c1(2) nl(1) nl(2) nl(3) nl(4) nl(3) nl(5)]
    by (simp add: own_range_def ix len)
qed

lemma keyword_ident_shape:
  assumes ws: "\<forall>c\<in>set ws. is_space c" and kw: "kw \<noteq> []" "\<not> is_space (hd kw)"
      and sp: "sp \<noteq> []" "\<forall>c\<in>set sp. is_space c"
      and h: "first h" "\<not> is_space h" and t: "\<forall>c\<in>set t. is_word c"
      and r: "rest = [] \<or> \<not> is_word (hd rest)"
  shows "keyword_ident kw first (ws @ kw @ sp @ h # t @ rest) = Some (h # t, rest)"
proof -
  have lead: "dropWhile is_space (ws @ kw @ sp @ h # t @ rest) = kw @ sp @ h # t @ rest"
    using dropWhile_run [of ws is_space "kw @ sp @ h # t @ rest"] ws kw by simp
  obtain s0 sp' where s0: "sp = s0 # sp'" using sp(1) by (cases sp) auto
  have after: "dropWhile is_space (sp' @ h # t @ rest) = h # t @ rest"
    using dropWhile_run [of sp' is_space "h # t @ rest"] sp(2) s0 h(2) by simp
  have nm: "takeWhile is_word (t @ rest) = t" "dropWhile is_word (t @ rest) = rest"
    using takeWhile_run [of t is_word rest] dropWhile_run [of t is_word rest] t r by blast+
  show ?thesis
    unfolding keyword_ident_def lead using sp(2) h(1) by (simp add: Let_def s0 after nm)
qed

lemma build_single_definition:
  assumes m: "first_match patterns ln = Some (nm, k)" and nl: "10 \<notin> set ln"
  shows "build ln = Some [DocumentSymbol nm k (own_range 0 ln nm) (own_range 0 ln nm) []]"
proof -
  have e: "blockStack init_state = []" by (simp add: init_state_def)
  have "\<exists>st. scan_line init_state 0 ln = Some st \<and> store st =
      [symbol_of nm k (own_range 0 ln nm) (own_range 0 ln nm)] \<and> symbols st = [0]"
  proof (cases "k = Constant")
    case True
    then show ?thesis
      using m by (simp add: scan_line_defining [OF m] define_symbol_const init_state_def)
  next
    case False
    then have "k = Class \<or> k = Struct \<or> ((k = Function \<or> k = Enum) \<and> blockStack init_state = [])"
      using e by (cases k) auto
    then show ?thesis
      using False by (simp add: scan_line_defining [OF m] define_symbol_top [OF m] init_state_def)
  qed
  then show ?thesis
    using nl by (auto simp: build_def provideDocumentSymbols_def split_nl_single
        symbol_of_def)
qed

lemma def_line:
  assumes ws: "\<forall>c\<in>set ws. is_space c" and sp: "sp \<noteq> []" "\<forall>c\<in>set sp. is_space c"
      and h: "is_lower h \<or> is_upper h \<or> h = 95" and t: "\<forall>c\<in>set t. is_word c"
      and r: "rest = [] \<or> \<not> is_word (hd rest)"
  shows "first_match patterns (ws @ js ''def'' @ sp @ h # t @ rest) = Some (h # t, Function)"
proof -
  have "keyword_ident (js ''def'') (\<lambda>c. is_lower c \<or> is_upper c \<or> c = 95)
      (ws @ js ''def'' @ sp @ h # t @ rest) = Some (h # t, rest)"
    using ws _ _ sp h first_not_space(2) [OF h] t r
    by (rule keyword_ident_shape) (simp_all add: js_def is_space_def)
  then show ?thesis by (simp add: patterns_def def_regex_def)
qed

lemma function_name_head:
  assumes "first_match patterns ln = Some (nm, Function)"
  shows "nm \<noteq> [] \<and> (is_lower (hd nm) \<or> is_upper (hd nm) \<or> hd nm = 95)"
  using assms
proof (rule first_match_cases)
  fix r
  assume "keyword_ident (js ''def'') (\<lambda>c. is_lower c \<or> is_upper c \<or> c = 95) ln = Some (nm, r)"
  from keyword_identD [OF this] show ?thesis by auto
qed simp_all

section \<open>Which lines define a function\<close>

text \<open>
  Claim C7, as amended. A line of white space, \<^verbatim>\<open>def\<close>, white space and an identifier
  that begins with a letter of either case or an underscore defines a function of that
  name: alone in a text it gives one Function symbol. An identifier that begins with a
  capital is therefore accepted. Conversely the name of every Function symbol begins
  with a letter or an underscore.
\<close>

theorem def_pattern_accepts_either_case:
  assumes "\<forall>c\<in>set ws. is_space c" and "sp \<noteq> []" "\<forall>c\<in>set sp. is_space c"
      and "is_lower h \<or> is_upper h \<or> h = 95" and "\<forall>c\<in>set t. is_word c"
      and "rest = [] \<or> \<not> is_word (hd rest)"
      and "10 \<notin> set (ws @ js ''def'' @ sp @ h # t @ rest)"
  shows "build (ws @ js ''def'' @ sp @ h # t @ rest) =
           Some [DocumentSymbol (h # t) Function
                   (own_range 0 (ws @ js ''def'' @ sp @ h # t @ rest) (h # t))
                   (own_range 0 (ws @ js ''def'' @ sp @ h # t @ rest) (h # t)) []]
     \<and> (\<forall>ln nm. first_match patterns ln = Some (nm, Function) \<longrightarrow>
           nm \<noteq> [] \<and> (is_lower (hd nm) \<or> is_upper (hd nm) \<or> hd nm = 95))"
proof -
  have "first_match patterns (ws @ js ''def'' @ sp @ h # t @ rest) = Some (h # t, Function)"
    using assms(1-6) by (rule def_line)
  then have "build (ws @ js ''def'' @ sp @ h # t @ rest) =
           Some [DocumentSymbol (h # t) Function
                   (own_range 0 (ws @ js ''def'' @ sp @ h # t @ rest) (h # t))
                   (own_range 0 (ws @ js ''def'' @ sp @ h # t @ rest) (h # t)) []]"
    using assms(7) by (rule build_single_definition)
  then show ?thesis using function_name_head by blast
qed

theorem def_pattern_accepts_either_case_witness:
  "build (js ''def Foo'') =
     Some [DocumentSymbol (js ''Foo'') Function
             \<lparr>start = \<lparr>line = 0, character = 4\<rparr>, endp = \<lparr>line = 0, character = 7\<rparr>\<rparr>
             \<lparr>start = \<lparr>line = 0, character = 4\<rparr>, endp = \<lparr>line = 0, character = 7\<rparr>\<rparr> []]"
  using def_pattern_accepts_either_case [of "[]" "js '' ''" 70 "js ''oo''" "[]"]
  by (simp add: js_def char_defs own_range_def)

lemma def_Foo: "first_match patterns (js ''def Foo'') = Some (js ''Foo'', Function)"
  by (simp add: patterns_def def_regex_def keyword_ident_def js_def char_defs)

text \<open>The claim as it was stated fails on \<^verbatim>\<open>def Foo\<close>: the identifier begins with a
  capital and the line defines the function \<^verbatim>\<open>Foo\<close>.\<close>

theorem def_pattern_lowercase_counterexample:
  "is_upper (hd (js ''Foo'')) \<and>
   first_match patterns (js ''def Foo'') = Some (js ''Foo'', Function) \<and>
   build (js ''def Foo'') =
     Some [DocumentSymbol (js ''Foo'') Function
             \<lparr>start = \<lparr>line = 0, character = 4\<rparr>, endp = \<lparr>line = 0, character = 7\<rparr>\<rparr>
             \<lparr>start = \<lparr>line = 0, character = 4\<rparr>, endp = \<lparr>line = 0, character = 7\<rparr>\<rparr> []]"
proof -
  have "10 \<notin> set (js ''def Foo'')" by (simp add: js_def)
  with def_Foo have "build (js ''def Foo'') =
      Some [DocumentSymbol (js ''Foo'') Function (own_range 0 (js ''def Foo'') (js ''Foo''))
        (own_range 0 (js ''def Foo'') (js ''Foo'')) []]"
    by (rule build_single_definition)
  moreover have "own_range 0 (js ''def Foo'') (js ''Foo'') =
      \<lparr>start = \<lparr>line = 0, character = 4\<rparr>, endp = \<lparr>line = 0, character = 7\<rparr>\<rparr>"
    by (simp add: own_range_def js_def)
  moreover have "is_upper (hd (js ''Foo''))" by (simp add: js_def is_upper_def)
  ultimately show ?thesis using def_Foo by simp
qed

section \<open>Where a symbol starts\<close>

lemma def_d: "first_match patterns (js ''def d'') = Some (js ''d'', Function)"
  by (simp add: patterns_def def_regex_def keyword_ident_def js_def char_defs)

text \<open>
  Claim C8 does not hold of the program. The start of a symbol is
  \<^verbatim>\<open>line.indexOf(name)\<close>, the first place where the text of the name occurs in the
  line, which is not always where the identifier stands. On the line \<^verbatim>\<open>def d\<close> the
  identifier is at column 4, after the four code units of \<^verbatim>\<open>def \<close>, and the symbol
  starts at column 0, at the \<^verbatim>\<open>d\<close> of the keyword.
\<close>

theorem def_d_start_column:
  "js ''def d'' = js ''def '' @ js ''d'' \<and> length (js ''def '') = 4 \<and>
   indexOf (js ''def d'') (js ''d'') = 0 \<and>
   build (js ''def d'') =
     Some [DocumentSymbol (js ''d'') Function
             \<lparr>start = \<lparr>line = 0, character = 0\<rparr>, endp = \<lparr>line = 0, character = 5\<rparr>\<rparr>
             \<lparr>start = \<lparr>line = 0, character = 0\<rparr>, endp = \<lparr>line = 0, character = 5\<rparr>\<rparr> []]"
proof -
  have "10 \<notin> set (js ''def d'')" by (simp add: js_def)
  with def_d have "build (js ''def d'') =
      Some [DocumentSymbol (js ''d'') Function (own_range 0 (js ''def d'') (js ''d''))
        (own_range 0 (js ''def d'') (js ''d'')) []]"
    by (rule build_single_definition)
  moreover have "own_range 0 (js ''def d'') (js ''d'') =
      \<lparr>start = \<lparr>line = 0, character = 0\<rparr>, endp = \<lparr>line = 0, character = 5\<rparr>\<rparr>"
    by (simp add: own_range_def js_def)
  ultimately show ?thesis by (simp add: js_def)
qed

lemma rtrim_prefix: "prefix (rev (dropWhile P (rev x))) x"
proof -
  have "rev x = takeWhile P (rev x) @ dropWhile P (rev x)" by simp
  then have "x = rev (dropWhile P (rev x)) @ rev (takeWhile P (rev x))"
    by (metis rev_append rev_rev_ident)
  then show ?thesis by (metis prefixI)
qed

lemma block_keyword_letters:
  assumes "kw \<in> set block_keywords"
  shows "kw \<noteq> [] \<and> \<not> is_space (hd kw) \<and> \<not> is_space (last kw)"
  using assms by (auto simp: block_keywords_def js_def is_space_def)

lemma leading_keyword_opens:
  assumes ws: "\<forall>c\<in>set ws. is_space c" and kw: "kw \<in> set block_keywords"
      and r: "rest = [] \<or> \<not> is_word (hd rest)"
  shows "opens_block (trim (ws @ kw @ rest))"
proof -
  note k = block_keyword_letters [OF kw]
  have "dropWhile is_space (ws @ kw @ rest) = kw @ rest"
    using dropWhile_run [of ws is_space "kw @ rest"] ws k by simp
  then have t: "trim (ws @ kw @ rest) = kw @ rev (dropWhile is_space (rev rest))"
    using k by (intro trim_keeps_prefix) simp_all
  have b: "case rev (dropWhile is_space (rev rest)) of [] \<Rightarrow> True | c # _ \<Rightarrow> \<not> is_word c"
  proof (cases "rev (dropWhile is_space (rev rest))")
    case Nil
    show ?thesis unfolding Nil by simp
  next
    case (Cons c cs)
    have "prefix (c # cs) rest" using rtrim_prefix [of is_space rest] unfolding Cons .
    then have "rest \<noteq> [] \<and> hd rest = c" by (auto simp: prefix_def)
    then have "\<not> is_word c" using r by auto
    then show ?thesis unfolding Cons by simp
  qed
  have "starts_with_word kw (trim (ws @ kw @ rest))"
    by (subst starts_with_word_trim) (simp add: t b)
  then show ?thesis
    using kw unfolding opens_block_def list_ex_iff by blast
qed

lemma define_symbol_depth:
  assumes "define_symbol st i ln = Some st1"
  shows "depth st1 = depth st"
proof (cases "first_match patterns ln")
  case None
  then show ?thesis using assms by (simp add: define_symbol_none)
next
  case (Some m)
  obtain nm k where m: "first_match patterns ln = Some (nm, k)" using Some by (cases m) auto
  show ?thesis
    using assms unfolding define_symbol_def m
    by (auto simp: own_range_eq [OF m] Let_def split: if_splits)
qed

lemma scan_line_depth:
  assumes "scan_line st i ln = Some st'"
  shows "depth st' = depth st + depth_change ln"
proof -
  from assms obtain st1 where 1: "define_symbol st i ln = Some st1"
    and 2: "track_end (track_open st1 (trim ln)) i ln (trim ln) = Some st'"
    by (auto simp: scan_line_def split: bind_splits)
  have "depth st' = depth (track_open st1 (trim ln)) - (if closes_block (trim ln) then 1 else 0)"
    using 2 unfolding track_end_eq by (auto split: if_splits)
  then show ?thesis
    using define_symbol_depth [OF 1] by (simp add: track_open_def depth_change_def)
qed

lemma depth_change_cases:
  "depth_change ln = (if opens_block (trim ln) then 1 else if closes_block (trim ln) then - 1 else 0)"
  using end_line(2) [of ln] by (auto simp: depth_change_def)

lemma lead_eq_trim_spaces:
  "\<exists>tail. dropWhile is_space ln = trim ln @ tail \<and> (\<forall>c\<in>set tail. is_space c)"
proof -
  let ?x = "dropWhile is_space ln"
  have "rev ?x = takeWhile is_space (rev ?x) @ dropWhile is_space (rev ?x)" by simp
  then have "?x = rev (dropWhile is_space (rev ?x)) @ rev (takeWhile is_space (rev ?x))"
    by (metis rev_append rev_rev_ident)
  then have "?x = trim ln @ rev (takeWhile is_space (rev ?x))"
    by (simp add: trim_def)
  moreover have "\<forall>c\<in>set (rev (takeWhile is_space (rev ?x))). is_space c"
    by (metis set_rev set_takeWhileD)
  ultimately show ?thesis by blast
qed

lemma opens_leading_keyword:
  assumes "opens_block (trim ln)"
  shows "\<exists>ws kw rest. ln = ws @ kw @ rest \<and> (\<forall>c\<in>set ws. is_space c) \<and>
           kw \<in> set block_keywords \<and> (rest = [] \<or> \<not> is_word (hd rest))"
proof -
  from assms obtain kw where kw: "kw \<in> set block_keywords"
    and p: "prefix kw (trim ln)"
    and b: "case drop (length kw) (trim ln) of [] \<Rightarrow> True | c # _ \<Rightarrow> \<not> is_word c"
    unfolding opens_block_def list_ex_iff starts_with_word_trim by blast
  from p obtain r where r: "trim ln = kw @ r" by (auto simp: prefix_def)
  obtain tail where tail: "dropWhile is_space ln = trim ln @ tail" "\<forall>c\<in>set tail. is_space c"
    using lead_eq_trim_spaces by blast
  have ln: "ln = takeWhile is_space ln @ kw @ (r @ tail)"
    using takeWhile_dropWhile_id [of is_space ln] tail(1) r by simp
  have "r @ tail = [] \<or> \<not> is_word (hd (r @ tail))"
  proof (cases r)
    case Nil
    then show ?thesis using tail(2) space_not_word by (cases tail) auto
  next
    case (Cons c cs)
    then show ?thesis using b r by simp
  qed
  moreover have "\<forall>c\<in>set (takeWhile is_space ln). is_space c"
    by (meson set_takeWhileD)
  ultimately show ?thesis using ln kw by blast
qed

lemma leading_keyword_depth:
  assumes "scan_line st i ln = Some st'"
  shows "((\<exists>ws kw rest. ln = ws @ kw @ rest \<and> (\<forall>c\<in>set ws. is_space c) \<and>
             kw \<in> set block_keywords \<and> (rest = [] \<or> \<not> is_word (hd rest)))
           \<longrightarrow> depth st' = depth st + 1)
       \<and> (\<not> (\<exists>ws kw rest. ln = ws @ kw @ rest \<and> (\<forall>c\<in>set ws. is_space c) \<and>
             kw \<in> set block_keywords \<and> (rest = [] \<or> \<not> is_word (hd rest)))
           \<longrightarrow> depth st' \<le> depth st)"
proof -
  have d: "depth st' = depth st + depth_change ln"
    using assms by (rule scan_line_depth)
  have "opens_block (trim ln) \<longleftrightarrow>
      (\<exists>ws kw rest. ln = ws @ kw @ rest \<and> (\<forall>c\<in>set ws. is_space c) \<and>
             kw \<in> set block_keywords \<and> (rest = [] \<or> \<not> is_word (hd rest)))"
    using opens_leading_keyword [of ln] leading_keyword_opens by blast
  then show ?thesis
    using d by (auto simp: depth_change_cases)
qed

section \<open>The depth counter\<close>

text \<open>
  Claim C6, as amended. A line increments \<^verbatim>\<open>depth\<close> exactly when, after its leading
  white space, it starts with one of the block-opening keywords followed by the end of
  the line or by a code unit that is not a word character; it is then incremented by
  one, whatever else the line contains. On any other line, also one that has such a
  keyword further on, \<^verbatim>\<open>depth\<close> is not incremented.
\<close>

theorem depth_counts_leading_keyword_once:
  assumes "scan_line st i ln = Some st'"
  shows "((\<exists>ws kw rest. ln = ws @ kw @ rest \<and> (\<forall>c\<in>set ws. is_space c) \<and>
             kw \<in> set block_keywords \<and> (rest = [] \<or> \<not> is_word (hd rest)))
           \<longrightarrow> depth st' = depth st + 1)
       \<and> (\<not> (\<exists>ws kw rest. ln = ws @ kw @ rest \<and> (\<forall>c\<in>set ws. is_space c) \<and>
             kw \<in> set block_keywords \<and> (rest = [] \<or> \<not> is_word (hd rest)))
           \<longrightarrow> depth st' \<le> depth st)"
  using assms by (rule leading_keyword_depth)

theorem depth_counts_leading_keyword_once_witness:
  "map_option depth (scan_line init_state 0 (js ''if x while y'')) = Some 1"
proof -
  obtain st' where st': "scan_line init_state 0 (js ''if x while y'') = Some st'"
    using scan_line_total by blast
  have "js ''if x while y'' = [] @ js ''if'' @ js '' x while y'' \<and> (\<forall>c\<in>set []. is_space c) \<and>
      js ''if'' \<in> set block_keywords \<and>
      (js '' x while y'' = [] \<or> \<not> is_word (hd (js '' x while y'')))"
    by (simp add: js_def block_keywords_def char_defs)
  then have "\<exists>ws kw rest. js ''if x while y'' = ws @ kw @ rest \<and> (\<forall>c\<in>set ws. is_space c) \<and>
      kw \<in> set block_keywords \<and> (rest = [] \<or> \<not> is_word (hd rest))"
    by blast
  then have "depth st' = depth init_state + 1"
    using depth_counts_leading_keyword_once [OF st'] by blast
  then have "depth st' = 1" by (simp add: init_state_def)
  then show ?thesis unfolding st' by simp
qed

text \<open>The claim as it was stated fails on \<^verbatim>\<open>x = 1 if y\<close>: the line contains the
  keyword \<^verbatim>\<open>if\<close> and leaves the state, and with it \<^verbatim>\<open>depth\<close>, as it was.\<close>

lemma modifier_line:
  "first_match patterns (js ''x = 1 if y'') = None"
  "\<not> opens_block (trim (js ''x = 1 if y''))"
  "\<not> closes_block (trim (js ''x = 1 if y''))"
  by (simp_all add: patterns_def def_regex_def class_regex_def struct_regex_def enum_regex_def
      const_regex_def keyword_ident_def opens_block_def closes_block_def starts_with_word_def
      block_keywords_def trim_def js_def char_defs)

lemma modifier_line_contains: "spec_contains_block_keyword (js ''x = 1 if y'')"
  by (simp add: spec_contains_block_keyword_def block_keywords_def js_def char_defs)

theorem depth_for_any_keyword_counterexample:
  "spec_contains_block_keyword (js ''x = 1 if y'') \<and>
   scan_line init_state 0 (js ''x = 1 if y'') = Some init_state \<and>
   map_option depth (scan_line init_state 0 (js ''x = 1 if y'')) \<noteq> Some (depth init_state + 1)"
  using modifier_line modifier_line_contains by (simp add: scan_line_plain)

section \<open>A class that is not closed\<close>

lemma frame_kept_step:
  assumes sl: "scan_line st i ln = Some st'" and snd: "sound_state st"
      and a: "a < length (store st)"
      and fr: "\<forall>f\<in>set (blockStack st). fst f = a \<longrightarrow> snd f = d0"
      and dp: "d0 < depth st + depth_change ln"
  shows "a < length (store st') \<and>
         (\<forall>f\<in>set (blockStack st'). fst f = a \<longrightarrow> snd f = d0) \<and>
         (store st' ! a)\<lparr>children := []\<rparr> = (store st ! a)\<lparr>children := []\<rparr> \<and>
         set (symbols st) \<subseteq> set (symbols st')"
proof (cases "first_match patterns ln")
  case (Some m)
  obtain nm k where m: "first_match patterns ln = Some (nm, k)" using Some by (cases m) auto
  let ?new = "symbol_of nm k (own_range i ln nm) (own_range i ln nm)"
  obtain st1 where d: "define_symbol st i ln = Some st1"
    using define_symbol_total by blast
  have st': "st' = (if k = Constant then st1 else st1\<lparr>depth := depth st1 + 1\<rparr>)"
    using sl unfolding scan_line_defining [OF m] d by simp
  consider (nested) "k = Function \<or> k = Enum" "blockStack st \<noteq> []"
    | (top) "k = Class \<or> k = Struct \<or> ((k = Function \<or> k = Enum) \<and> blockStack st = [])"
    | (const) "k = Constant"
    by (cases k) auto
  then have "a < length (store st1) \<and>
         (\<forall>f\<in>set (blockStack st1). fst f = a \<longrightarrow> snd f = d0) \<and>
         (store st1 ! a)\<lparr>children := []\<rparr> = (store st ! a)\<lparr>children := []\<rparr> \<and>
         set (symbols st) \<subseteq> set (symbols st1)"
  proof cases
    case nested
    let ?p = "fst (last (blockStack st))"
    have p: "?p < length (store st)" using snd nested(2) by (rule sound_last)
    have "st1 = st\<lparr>store := (store st)[?p := (store st ! ?p)
                    \<lparr>children := children (store st ! ?p) @ [length (store st)]\<rparr>] @ [?new],
              blockStack := blockStack st @ [(length (store st), depth st)]\<rparr>"
      using d define_symbol_nested [OF m nested p] by simp
    then show ?thesis
      using a fr p by (auto simp: nth_append nth_list_update)
  next
    case top
    have "st1 = st\<lparr>store := store st @ [?new],
              symbols := symbols st @ [length (store st)],
              blockStack := blockStack st @ [(length (store st), depth st)]\<rparr>"
      using d define_symbol_top [OF m top] by simp
    then show ?thesis
      using a fr by (auto simp: nth_append)
  next
    case const
    have "st1 = st\<lparr>store := store st @ [?new],
              symbols := symbols st @ [length (store st)]\<rparr>"
      using d m define_symbol_const [of ln nm st i] const by simp
    then show ?thesis
      using a fr by (auto simp: nth_append)
  qed
  then show ?thesis unfolding st' by simp
next
  case None
  show ?thesis
  proof (cases "closes_block (trim ln)")
    case False
    have "st' = (if opens_block (trim ln) then st\<lparr>depth := depth st + 1\<rparr> else st)"
      using sl unfolding scan_line_plain [OF None False] by simp
    then show ?thesis
      using a fr by (cases "opens_block (trim ln)") auto
  next
    case True
    then have dc: "depth_change ln = - 1"
      using end_line(2) [OF True] by (simp add: depth_change_def)
    let ?t = "fst (last (blockStack st))"
    show ?thesis
    proof (cases "blockStack st \<noteq> [] \<and> depth st - 1 \<le> snd (last (blockStack st))")
      case pop: True
      then have "last (blockStack st) \<in> set (blockStack st)" by simp
      then have ne: "?t \<noteq> a" using fr pop dp dc by auto
      have "st' = st\<lparr>store := (store st)[?t := (store st ! ?t)
                      \<lparr>srange := Range (start (srange (store st ! ?t)))
                                        \<lparr>line = int i, character = int (length ln)\<rparr>\<rparr>],
                  blockStack := butlast (blockStack st), depth := depth st - 1\<rparr>"
        using sl unfolding scan_line_end [OF True] if_P [OF pop] by simp
      then show ?thesis
        using a fr ne by (auto dest: in_set_butlastD)
    next
      case False
      have "st' = st\<lparr>depth := depth st - 1\<rparr>"
        using sl unfolding scan_line_end [OF True] if_not_P [OF False] by simp
      then show ?thesis using a fr by auto
    qed
  qed
qed

lemma frame_kept_scan:
  assumes "scan st i post = Some st'" and "sound_state st" and "a < length (store st)"
      and "\<forall>f\<in>set (blockStack st). fst f = a \<longrightarrow> snd f = d0"
      and "\<forall>k. 0 < k \<and> k \<le> length post \<longrightarrow>
             d0 < depth st + sum_list (map depth_change (take k post))"
  shows "a < length (store st') \<and>
         (store st' ! a)\<lparr>children := []\<rparr> = (store st ! a)\<lparr>children := []\<rparr> \<and>
         set (symbols st) \<subseteq> set (symbols st')"
  using assms
proof (induction post arbitrary: st i)
  case Nil
  then show ?case by simp
next
  case (Cons ln post)
  from Cons.prems(1) obtain st1 where 1: "scan_line st i ln = Some st1"
    and 2: "scan st1 (Suc i) post = Some st'"
    by (auto split: option.splits)
  have "0 < (1::nat) \<and> 1 \<le> length (ln # post)" by simp
  then have "d0 < depth st + sum_list (map depth_change (take 1 (ln # post)))"
    using Cons.prems(5) by blast
  then have dp: "d0 < depth st + depth_change ln" by simp
  note step = frame_kept_step [OF 1 Cons.prems(2) Cons.prems(3) Cons.prems(4) dp]
  have s1: "sound_state st1" using Cons.prems(2) 1 by (rule scan_line_sound)
  have d1: "depth st1 = depth st + depth_change ln" using 1 by (rule scan_line_depth)
  have rest: "\<forall>k. 0 < k \<and> k \<le> length post \<longrightarrow>
             d0 < depth st1 + sum_list (map depth_change (take k post))"
  proof (intro allI impI)
    fix k assume k: "0 < k \<and> k \<le> length post"
    then have "0 < Suc k \<and> Suc k \<le> length (ln # post)" by simp
    then have "d0 < depth st + sum_list (map depth_change (take (Suc k) (ln # post)))"
      using Cons.prems(5) by blast
    then show "d0 < depth st1 + sum_list (map depth_change (take k post))"
      using d1 by simp
  qed
  have "a < length (store st') \<and>
         (store st' ! a)\<lparr>children := []\<rparr> = (store st1 ! a)\<lparr>children := []\<rparr> \<and>
         set (symbols st1) \<subseteq> set (symbols st')"
    using 2 s1 _ _ rest by (rule Cons.IH) (use step in blast)+
  then show ?case using step by auto
qed

lemma unterminated_class:
  assumes cls: "first_match patterns c = Some (nm, Class)"
      and lines: "split_nl text = pre @ c # post"
      and opn: "\<forall>k \<le> length post. 0 \<le> sum_list (map depth_change (take k post))"
  shows "\<exists>forest ch. build text = Some forest \<and>
           DocumentSymbol nm Class (own_range (length pre) c nm) (own_range (length pre) c nm) ch
             \<in> set forest"
proof -
  let ?R = "own_range (length pre) c nm"
  obtain st0 where st0: "scan init_state 0 pre = Some st0"
    using scan_total by blast
  have s0: "sound_state st0" using sound_init st0 by (rule scan_sound)
  let ?a = "length (store st0)"
  let ?st1 = "st0\<lparr>store := store st0 @ [symbol_of nm Class ?R ?R],
                  symbols := symbols st0 @ [?a],
                  blockStack := blockStack st0 @ [(?a, depth st0)],
                  depth := depth st0 + 1\<rparr>"
  have st1: "scan_line st0 (length pre) c = Some ?st1"
    by (simp add: scan_line_defining [OF cls] define_symbol_top [OF cls])
  have s1: "sound_state ?st1" using s0 st1 by (rule scan_line_sound)
  obtain st' where st': "scan ?st1 (Suc (length pre)) post = Some st'"
    using scan_total by blast
  have all: "scan init_state 0 (pre @ c # post) = Some st'"
    by (simp add: scan_append st0 st1 st')
  have s': "sound_state st'" using s1 st' by (rule scan_sound)
  have a1: "?a < length (store ?st1)" by simp
  have fr: "\<forall>f\<in>set (blockStack ?st1). fst f = ?a \<longrightarrow> snd f = depth st0"
    using soundD2 [OF s0] by fastforce
  have dp: "\<forall>k. 0 < k \<and> k \<le> length post \<longrightarrow>
             depth st0 < depth ?st1 + sum_list (map depth_change (take k post))"
    using opn by fastforce
  note kept = frame_kept_scan [OF st' s1 a1 fr dp]
  have cell: "(store st' ! ?a)\<lparr>children := []\<rparr> = symbol_of nm Class ?R ?R"
    using kept by (simp add: symbol_of_def)
  have "name ((store st' ! ?a)\<lparr>children := []\<rparr>) = nm"
    "kind ((store st' ! ?a)\<lparr>children := []\<rparr>) = Class"
    "srange ((store st' ! ?a)\<lparr>children := []\<rparr>) = ?R"
    "selectionRange ((store st' ! ?a)\<lparr>children := []\<rparr>) = ?R"
    unfolding cell by (simp_all add: symbol_of_def)
  then have fields: "name (store st' ! ?a) = nm" "kind (store st' ! ?a) = Class"
    "srange (store st' ! ?a) = ?R" "selectionRange (store st' ! ?a) = ?R"
    by simp_all
  have a': "?a < length (store st')" using kept by blast
  have "?a \<in> set (symbols st')" using kept by auto
  then have "reify (store st') ?a \<in> set (map (reify (store st')) (symbols st'))"
    by simp
  moreover have "reify (store st') ?a =
      DocumentSymbol nm Class ?R ?R (map (reify (store st')) (children (store st' ! ?a)))"
    using reify_sound [OF s' a'] fields by simp
  moreover have "build text = Some (map (reify (store st')) (symbols st'))"
    by (simp add: build_def provideDocumentSymbols_def lines all)
  ultimately show ?thesis by metis
qed

text \<open>
  Claim C9. Let \<open>c\<close> be a line of the text on which the class pattern is the first to
  match, and let the lines after it never bring \<^verbatim>\<open>depth\<close> back to its value before \<open>c\<close>:
  in every initial part of them the lines that start with \<^verbatim>\<open>end\<close> do not outnumber the
  lines that start with a block-opening keyword, so the class has no closing \<^verbatim>\<open>end\<close>
  of its own. Then \<open>build\<close> succeeds, and its result has a Class symbol of that name
  whose range and selection range are the ones it was created with: they end at the
  end of the line \<open>c\<close>.
\<close>

theorem unterminated_class_keeps_own_range:
  assumes "first_match patterns c = Some (nm, Class)"
      and "split_nl text = pre @ c # post"
      and "\<forall>k \<le> length post. 0 \<le> sum_list (map depth_change (take k post))"
  shows "\<exists>forest ch. build text = Some forest \<and>
           DocumentSymbol nm Class (own_range (length pre) c nm) (own_range (length pre) c nm) ch
             \<in> set forest"
  using assms by (rule unterminated_class)

lemma depth_change_c9:
  "depth_change (js ''  def f'') = 1" "depth_change (js ''  end'') = - 1"
  using defining_line_opens [OF lines_c1(2)] end_line(2) [OF ends_c1(1)] ends_c1(1)
  by (simp_all add: depth_change_cases)

lemma no_lf_c9:
  "10 \<notin> set (js ''class A'')" "10 \<notin> set (js ''  def f'')" "10 \<notin> set (js ''  end'')"
  "10 \<notin> set (js ''  def g'')"
  by (simp_all add: js_def)

theorem unterminated_class_keeps_own_range_witness:
  "\<exists>forest ch. build (js ''class A'' @ [10] @ js ''  def f'' @ [10] @ js ''  end'') = Some forest \<and>
     DocumentSymbol (js ''A'') Class
       \<lparr>start = \<lparr>line = 0, character = 6\<rparr>, endp = \<lparr>line = 0, character = 7\<rparr>\<rparr>
       \<lparr>start = \<lparr>line = 0, character = 6\<rparr>, endp = \<lparr>line = 0, character = 7\<rparr>\<rparr> ch \<in> set forest"
proof -
  have l: "split_nl (js ''class A'' @ [10] @ js ''  def f'' @ [10] @ js ''  end'') =
      [] @ js ''class A'' # [js ''  def f'', js ''  end'']"
    using no_lf_c9 by (simp add: split_nl_line split_nl_single)
  have t: "take 0 [js ''  def f'', js ''  end''] = []"
    "take 1 [js ''  def f'', js ''  end''] = [js ''  def f'']"
    "take 2 [js ''  def f'', js ''  end''] = [js ''  def f'', js ''  end'']"
    by simp_all
  have "\<forall>k \<le> length [js ''  def f'', js ''  end''].
      0 \<le> sum_list (map depth_change (take k [js ''  def f'', js ''  end'']))"
  proof (intro allI impI)
    fix k :: nat assume "k \<le> length [js ''  def f'', js ''  end'']"
    then have "k = 0 \<or> k = 1 \<or> k = 2" by auto
    then show "0 \<le> sum_list (map depth_change (take k [js ''  def f'', js ''  end'']))"
      using t by (auto simp: depth_change_c9)
  qed
  note w = unterminated_class_keeps_own_range [OF lines_c1(1) l this]
  have r: "own_range (length ([] :: jstring list)) (js ''class A'') (js ''A'') =
      \<lparr>start = \<lparr>line = 0, character = 6\<rparr>, endp = \<lparr>line = 0, character = 7\<rparr>\<rparr>"
    by (simp add: own_range_def js_def)
  show ?thesis using w unfolding r .
qed

lemma nested_attach:
  assumes reach: "scan init_state 0 lns = Some st" and stk: "blockStack st \<noteq> []"
      and m: "first_match patterns ln = Some (nm, k)" and k: "k = Function \<or> k = Enum"
  shows "\<exists>st'. scan_line st (length lns) ln = Some st' \<and>
           children (store st' ! fst (last (blockStack st))) =
             children (store st ! fst (last (blockStack st))) @ [length (store st)] \<and>
           store st' ! length (store st) =
             symbol_of nm k (own_range (length lns) ln nm) (own_range (length lns) ln nm) \<and>
           symbols st' = symbols st \<and>
           (\<forall>b < length (store st). b \<noteq> fst (last (blockStack st)) \<longrightarrow>
              store st' ! b = store st ! b)"
proof -
  let ?p = "fst (last (blockStack st))"
  let ?new = "symbol_of nm k (own_range (length lns) ln nm) (own_range (length lns) ln nm)"
  let ?st' = "st\<lparr>store := (store st)[?p := (store st ! ?p)
                    \<lparr>children := children (store st ! ?p) @ [length (store st)]\<rparr>] @ [?new],
              blockStack := blockStack st @ [(length (store st), depth st)],
              depth := depth st + 1\<rparr>"
  have s: "sound_state st" using sound_init reach by (rule scan_sound)
  have p: "?p < length (store st)" using s stk by (rule sound_last)
  have "k \<noteq> Constant" using k by auto
  then have "scan_line st (length lns) ln = Some ?st'"
    by (simp add: scan_line_defining [OF m] define_symbol_nested [OF m k stk p])
  moreover have "children (store ?st' ! ?p) = children (store st ! ?p) @ [length (store st)]"
    using p by (simp add: nth_append)
  moreover have "store ?st' ! length (store st) = ?new"
    by (simp add: nth_append)
  moreover have "symbols ?st' = symbols st" by simp
  moreover have "\<forall>b < length (store st). b \<noteq> ?p \<longrightarrow> store ?st' ! b = store st ! b"
    by (simp add: nth_append)
  ultimately show ?thesis by blast
qed

lemma class_def_def:
  assumes c: "first_match patterns c = Some (n0, Class)"
      and f: "first_match patterns f = Some (n1, Function)"
      and g: "first_match patterns g = Some (n2, Function)"
      and nl: "10 \<notin> set c" "10 \<notin> set f" "10 \<notin> set g"
  shows "build (c @ [10] @ f @ [10] @ g) =
     Some [DocumentSymbol n0 Class (own_range 0 c n0) (own_range 0 c n0)
             [DocumentSymbol n1 Function (own_range 1 f n1) (own_range 1 f n1)
                [DocumentSymbol n2 Function (own_range 2 g n2) (own_range 2 g n2) []]]]"
proof -
  let ?A = "symbol_of n0 Class (own_range 0 c n0) (own_range 0 c n0)"
  let ?F = "symbol_of n1 Function (own_range 1 f n1) (own_range 1 f n1)"
  let ?G = "symbol_of n2 Function (own_range 2 g n2) (own_range 2 g n2)"
  let ?S1 = "\<lparr>store = [?A], symbols = [0], blockStack = [(0, 0)], depth = 1\<rparr>"
  let ?S2 = "\<lparr>store = [?A\<lparr>children := [1]\<rparr>, ?F], symbols = [0],
              blockStack = [(0, 0), (1, 1)], depth = 2\<rparr>"
  let ?S3 = "\<lparr>store = [?A\<lparr>children := [1]\<rparr>, ?F\<lparr>children := [2]\<rparr>, ?G], symbols = [0],
              blockStack = [(0, 0), (1, 1), (2, 2)], depth = 3\<rparr>"
  have s1: "scan_line init_state 0 c = Some ?S1"
    by (simp add: scan_line_defining [OF c] define_symbol_top [OF c] init_state_def)
  have s2: "scan_line ?S1 1 f = Some ?S2"
    by (simp add: scan_line_defining [OF f] define_symbol_nested [OF f] symbol_of_def)
  have s3: "scan_line ?S2 2 g = Some ?S3"
    by (simp add: scan_line_defining [OF g] define_symbol_nested [OF g] symbol_of_def)
  have lines: "split_nl (c @ [10] @ f @ [10] @ g) = [c, f, g]"
    using nl by (simp add: split_nl_line split_nl_single)
  have "scan init_state 0 [c, f, g] = Some ?S3"
    using s1 s2 s3 by (simp add: numeral_eq_Suc)
  then show ?thesis
    unfolding build_def provideDocumentSymbols_def lines
    by (simp add: symbol_of_def)
qed

section \<open>Where a new function or enum is attached\<close>

text \<open>
  Claim C10. In a state the scan reaches with a frame on \<^verbatim>\<open>blockStack\<close>, a line that
  defines a function or an enum creates a symbol whose reference is appended to the
  children of the symbol of the top frame, whatever kind that symbol has; \<^verbatim>\<open>symbols\<close>
  and every other symbol stay as they were. So in a text of a class line and two function
  lines the second function is the child of the first, which is the child of the class.
\<close>

theorem definition_nests_under_top_frame:
  assumes "scan init_state 0 lns = Some st" and "blockStack st \<noteq> []"
      and "first_match patterns ln = Some (nm, k)" and "k = Function \<or> k = Enum"
      and "first_match patterns c = Some (n0, Class)"
      and "first_match patterns f = Some (n1, Function)"
      and "first_match patterns g = Some (n2, Function)"
      and "10 \<notin> set c" "10 \<notin> set f" "10 \<notin> set g"
  shows "(\<exists>st'. scan_line st (length lns) ln = Some st' \<and>
           children (store st' ! fst (last (blockStack st))) =
             children (store st ! fst (last (blockStack st))) @ [length (store st)] \<and>
           store st' ! length (store st) =
             symbol_of nm k (own_range (length lns) ln nm) (own_range (length lns) ln nm) \<and>
           symbols st' = symbols st \<and>
           (\<forall>b < length (store st). b \<noteq> fst (last (blockStack st)) \<longrightarrow>
              store st' ! b = store st ! b))
     \<and> build (c @ [10] @ f @ [10] @ g) =
          Some [DocumentSymbol n0 Class (own_range 0 c n0) (own_range 0 c n0)
                  [DocumentSymbol n1 Function (own_range 1 f n1) (own_range 1 f n1)
                     [DocumentSymbol n2 Function (own_range 2 g n2) (own_range 2 g n2) []]]]"
  using nested_attach [OF assms(1-4)] class_def_def [OF assms(5-10)] by (rule conjI)

lemma scan_class_def:
  "scan init_state 0 [js ''class A'', js ''  def f''] =
     Some \<lparr>store = [symbol_of (js ''A'') Class
                       (own_range 0 (js ''class A'') (js ''A''))
                       (own_range 0 (js ''class A'') (js ''A''))\<lparr>children := [1]\<rparr>,
                     symbol_of (js ''f'') Function
                       (own_range 1 (js ''  def f'') (js ''f''))
                       (own_range 1 (js ''  def f'') (js ''f''))],
            symbols = [0], blockStack = [(0, 0), (1, 1)], depth = 2\<rparr>"
proof -
  let ?A = "symbol_of (js ''A'') Class (own_range 0 (js ''class A'') (js ''A''))
              (own_range 0 (js ''class A'') (js ''A''))"
  let ?S1 = "\<lparr>store = [?A], symbols = [0], blockStack = [(0, 0)], depth = 1\<rparr>"
  have s1: "scan_line init_state 0 (js ''class A'') = Some ?S1"
    by (simp add: scan_line_defining [OF lines_c1(1)] define_symbol_top [OF lines_c1(1)]
        init_state_def)
  have s2: "scan_line ?S1 1 (js ''  def f'') =
      Some \<lparr>store = [?A\<lparr>children := [1]\<rparr>,
                     symbol_of (js ''f'') Function
                       (own_range 1 (js ''  def f'') (js ''f''))
                       (own_range 1 (js ''  def f'') (js ''f''))],
            symbols = [0], blockStack = [(0, 0), (1, 1)], depth = 2\<rparr>"
    by (simp add: scan_line_defining [OF lines_c1(2)] define_symbol_nested [OF lines_c1(2)]
        symbol_of_def)
  show ?thesis using s1 s2 by simp
qed

theorem definition_nests_under_top_frame_witness:
  "build (js ''class A'' @ [10] @ js ''  def f'' @ [10] @ js ''  def g'') =
     Some [DocumentSymbol (js ''A'') Class
             \<lparr>start = \<lparr>line = 0, character = 6\<rparr>, endp = \<lparr>line = 0, character = 7\<rparr>\<rparr>
             \<lparr>start = \<lparr>line = 0, character = 6\<rparr>, endp = \<lparr>line = 0, character = 7\<rparr>\<rparr>
             [DocumentSymbol (js ''f'') Function
                \<lparr>start = \<lparr>line = 1, character = 4\<rparr>, endp = \<lparr>line = 1, character = 7\<rparr>\<rparr>
                \<lparr>start = \<lparr>line = 1, character = 4\<rparr>, endp = \<lparr>line = 1, character = 7\<rparr>\<rparr>
                [DocumentSymbol (js ''g'') Function
                   \<lparr>start = \<lparr>line = 2, character = 6\<rparr>, endp = \<lparr>line = 2, character = 7\<rparr>\<rparr>
                   \<lparr>start = \<lparr>line = 2, character = 6\<rparr>, endp = \<lparr>line = 2, character = 7\<rparr>\<rparr>
                   []]]]"
proof -
  have r: "own_range 0 (js ''class A'') (js ''A'') =
      \<lparr>start = \<lparr>line = 0, character = 6\<rparr>, endp = \<lparr>line = 0, character = 7\<rparr>\<rparr>"
    "own_range 1 (js ''  def f'') (js ''f'') =
      \<lparr>start = \<lparr>line = 1, character = 4\<rparr>, endp = \<lparr>line = 1, character = 7\<rparr>\<rparr>"
    "own_range 2 (js ''  def g'') (js ''g'') =
      \<lparr>start = \<lparr>line = 2, character = 6\<rparr>, endp = \<lparr>line = 2, character = 7\<rparr>\<rparr>"
    by (simp_all add: own_range_def js_def)
  have ne: "blockStack \<lparr>store = [symbol_of (js ''A'') Class
                       (own_range 0 (js ''class A'') (js ''A''))
                       (own_range 0 (js ''class A'') (js ''A''))\<lparr>children := [1]\<rparr>,
                     symbol_of (js ''f'') Function
                       (own_range 1 (js ''  def f'') (js ''f''))
                       (own_range 1 (js ''  def f'') (js ''f''))],
            symbols = [0], blockStack = [(0, 0), (1, 1)], depth = 2\<rparr> \<noteq> []"
    by simp
  have k: "Function = Function \<or> Function = Enum" by simp
  note w = definition_nests_under_top_frame [OF scan_class_def ne lines_c1(3) k
      lines_c1(1) lines_c1(2) lines_c1(3) no_lf_c9(1) no_lf_c9(2) no_lf_c9(4)]
  from w have "build (js ''class A'' @ [10] @ js ''  def f'' @ [10] @ js ''  def g'') =
          Some [DocumentSymbol (js ''A'') Class (own_range 0 (js ''class A'') (js ''A''))
                  (own_range 0 (js ''class A'') (js ''A''))
                  [DocumentSymbol (js ''f'') Function (own_range 1 (js ''  def f'') (js ''f''))
                     (own_range 1 (js ''  def f'') (js ''f''))
                     [DocumentSymbol (js ''g'') Function (own_range 2 (js ''  def g'') (js ''g''))
                        (own_range 2 (js ''  def g'') (js ''g'')) []]]]"
    by (rule conjunct2)
  then show ?thesis unfolding r .
qed

end
